theory Spec2Isabelle
  imports Main "HOL-Library.Word" "HOL-Library.Char_ord" "HOL-Library.List_Lexorder"
begin

unbundle bit_operations_syntax

section \<open>Data model of context.cpp and buffer.h\<close>

text \<open>
  Every failure in context.cpp is a \<^verbatim>\<open>throw std::runtime_error(msg)\<close>; the error value
  keeps the message of the throw site.  The specification's error kinds name these sites:
  ResourceExhausted is \<^verbatim>\<open>"No available sources"\<close>, InvalidOperation covers
  \<^verbatim>\<open>"Context is in use"\<close> and \<^verbatim>\<open>"Trying to destroy a context with buffers"\<close>, IOError is
  \<^verbatim>\<open>"Failed to rewind ..."\<close>.
\<close>

datatype error = RuntimeError string

type_synonym ALuint = nat
type_synonym ALenum = nat
type_synonym ChannelConfig = nat
type_synonym SampleType = nat

definition AL_NONE :: ALenum where
  "AL_NONE = 0"

datatype BufferLoadStatus = Pending | Ready

subsection \<open>Loop points (getBuffer, lines 526-533)\<close>

text \<open>
  \<^verbatim>\<open>loop_pts\<close> is a pair of \<^verbatim>\<open>uint64_t\<close>, \<^verbatim>\<open>frames\<close> an \<^verbatim>\<open>ALuint\<close> (32 bits) that is
  widened for \<^verbatim>\<open>std::make_pair(0, frames)\<close> and \<^verbatim>\<open>std::min<uint64_t>\<close>.  The subtraction
  \<^verbatim>\<open>loop_pts.second-1\<close> is the wrapping one of \<^verbatim>\<open>uint64_t\<close>.
\<close>

definition normalize_loop_points :: "64 word \<times> 64 word \<Rightarrow> 32 word \<Rightarrow> 64 word \<times> 64 word" where
  "normalize_loop_points loop_pts frames =
     (if fst loop_pts \<ge> snd loop_pts then (0, ucast frames)
      else
        let second = min (snd loop_pts) (ucast frames);
            first = min (fst loop_pts) (second - 1)
        in (first, second))"

subsection \<open>Streams, decoders and decoder factories (lines 47-113)\<close>

text \<open>
  A \<^verbatim>\<open>std::istream\<close> as far as GetDecoder uses one: the read position, the \<^verbatim>\<open>fail()\<close>
  state, and whether the device behind it can seek.  \<^verbatim>\<open>path\<close> and \<^verbatim>\<open>binary\<close> record what
  an \<^verbatim>\<open>std::ifstream\<close> was opened on.
\<close>

record istream =
  path :: string
  binary :: bool
  gpos :: nat
  failbit :: bool
  seekable :: bool

definition clear :: "istream \<Rightarrow> istream" where
  "clear s = s\<lparr>failbit := False\<rparr>"

text \<open>\<^verbatim>\<open>seekg\<close> does nothing on a failed stream and sets failbit when the seek fails.\<close>

definition seekg :: "nat \<Rightarrow> istream \<Rightarrow> istream" where
  "seekg off s =
     (if failbit s then s
      else if seekable s then s\<lparr>gpos := off\<rparr>
      else s\<lparr>failbit := True\<rparr>)"

text \<open>The Decoder capability: what its member functions return to getBuffer.\<close>

record Decoder =
  getFrequency :: ALuint
  getChannelConfig :: ChannelConfig
  getSampleType :: SampleType
  getLength :: "32 word"
  read :: "32 word \<Rightarrow> 32 word"
  getLoopPoints :: "64 word \<times> 64 word"

text \<open>
  \<^verbatim>\<open>DecoderFactory::createDecoder(UniquePtr<std::istream> &file)\<close>: the factory may read
  from the stream, may take it (leaving \<^verbatim>\<open>file\<close> null), and returns a decoder or null.
\<close>

type_synonym DecoderFactory = "istream option \<Rightarrow> Decoder option \<times> istream option"

definition rewind_error :: "string \<Rightarrow> error" where
  "rewind_error name = RuntimeError (''Failed to rewind '' @ name @ '' for the next decoder factory'')"

text \<open>The template GetDecoder(name, file, start, end), lines 70-86.\<close>

fun GetDecoder_range ::
  "string \<Rightarrow> istream option \<Rightarrow> (string \<times> DecoderFactory) list
     \<Rightarrow> error + (Decoder option \<times> istream option)" where
  "GetDecoder_range name file [] = Inr (None, file)"
| "GetDecoder_range name file (start # rest) =
     (case (snd start) file of
        (Some decoder, file') \<Rightarrow> Inr (Some decoder, file')
      | (None, file') \<Rightarrow>
          (case file' of
             None \<Rightarrow> Inl (rewind_error name)
           | Some f \<Rightarrow>
               let f' = seekg 0 (clear f) in
               if failbit f' then Inl (rewind_error name)
               else GetDecoder_range name (Some f') rest))"

text \<open>GetDecoder(name, file), lines 88-94: the registered factories, then the built-in ones.\<close>

definition GetDecoder ::
  "(string \<times> DecoderFactory) list \<Rightarrow> (string \<times> DecoderFactory) list
     \<Rightarrow> string \<Rightarrow> istream option \<Rightarrow> error + Decoder" where
  "GetDecoder sDecoders sDefaultDecoders name file =
     (case GetDecoder_range name file sDecoders of
        Inl e \<Rightarrow> Inl e
      | Inr (Some decoder, file') \<Rightarrow> Inr decoder
      | Inr (None, file') \<Rightarrow>
          (case GetDecoder_range name file' sDefaultDecoders of
             Inl e \<Rightarrow> Inl e
           | Inr (Some decoder, file'') \<Rightarrow> Inr decoder
           | Inr (None, file'') \<Rightarrow> Inl (RuntimeError (''No decoder for '' @ name))))"

text \<open>
  \<^verbatim>\<open>sDecoders\<close> is a \<^verbatim>\<open>std::map<String, UniquePtr<DecoderFactory>>\<close>: an association list
  kept in ascending key order, which is the order \<^verbatim>\<open>begin()\<close> to \<^verbatim>\<open>end()\<close> walks.
  RegisterDecoder (lines 96-101) refuses a name that is already a key.
\<close>

definition RegisterDecoder ::
  "string \<Rightarrow> DecoderFactory \<Rightarrow> (string \<times> DecoderFactory) list
     \<Rightarrow> error + (string \<times> DecoderFactory) list" where
  "RegisterDecoder name factory sDecoders =
     (if map_of sDecoders name \<noteq> None
      then Inl (RuntimeError (''Decoder factory \"'' @ name @ ''\" already registered''))
      else Inr (insort_key fst (name, factory) sDecoders))"

text \<open>
  \<^verbatim>\<open>sDefaultDecoders\<close>, lines 47-65.  The wave factory is always compiled in; each of the
  others only under its \<^verbatim>\<open>HAVE_...\<close> macro, so the table takes the wave factory and a
  partial assignment \<open>avail\<close> of factories to the remaining names.  The factory classes
  themselves live in decoders/*.hpp.
\<close>

definition sDefaultDecoderNames :: "string list" where
  "sDefaultDecoderNames =
     [''_alure_int_vorbis'', ''_alure_int_flac'', ''_alure_int_opus'',
      ''_alure_int_sndfile'', ''_alure_int_mpg123'']"

definition sDefaultDecoders ::
  "DecoderFactory \<Rightarrow> (string \<Rightarrow> DecoderFactory option) \<Rightarrow> (string \<times> DecoderFactory) list" where
  "sDefaultDecoders wave avail =
     (''_alure_int_wave'', wave)
       # List.map_filter (\<lambda>n. map_option (Pair n) (avail n)) sDefaultDecoderNames"

subsection \<open>File factories (lines 116-138)\<close>

text \<open>
  What \<^verbatim>\<open>FileIOFactory::get()\<close> refers to: the file-local \<^verbatim>\<open>sDefaultFileFactory\<close> or the
  user's factory held by \<^verbatim>\<open>sFileFactory\<close>.  A user factory is its \<^verbatim>\<open>openFile\<close> method.
  The file system is the predicate telling which names \<^verbatim>\<open>std::ifstream\<close> can open.
\<close>

datatype FileIOFactory =
  DefaultFileIOFactory
| UserFileIOFactory "string \<Rightarrow> istream option"

fun openFile :: "(string \<Rightarrow> bool) \<Rightarrow> FileIOFactory \<Rightarrow> string \<Rightarrow> istream option" where
  "openFile fs DefaultFileIOFactory name =
     (if fs name
      then Some \<lparr>path = name, binary = True, gpos = 0, failbit = False, seekable = True\<rparr>
      else None)"
| "openFile fs (UserFileIOFactory f) name = f name"

text \<open>\<^verbatim>\<open>FileIOFactory::set\<close>: the pair of the returned pointer and the new \<^verbatim>\<open>sFileFactory\<close>.\<close>

definition FileIOFactory_set ::
  "(string \<Rightarrow> istream option) option \<Rightarrow> (string \<Rightarrow> istream option) option
     \<Rightarrow> (string \<Rightarrow> istream option) option \<times> (string \<Rightarrow> istream option) option" where
  "FileIOFactory_set factory sFileFactory = (sFileFactory, factory)"

definition FileIOFactory_get :: "(string \<Rightarrow> istream option) option \<Rightarrow> FileIOFactory" where
  "FileIOFactory_get sFileFactory =
     (case sFileFactory of Some factory \<Rightarrow> UserFileIOFactory factory | None \<Rightarrow> DefaultFileIOFactory)"

subsection \<open>Buffers, sources and the context (buffer.h, class ALContext)\<close>

text \<open>
  ALBuffer as context.cpp constructs and reads it: the constructor call of lines 562 and
  606 passes the name last and \<^verbatim>\<open>getName()\<close> reads it back (buffer.h, lines 35-38, is
  the same constructor without the name).  \<^verbatim>\<open>preloaded\<close> decides the load status.
\<close>

record ALBuffer =
  mId :: ALuint
  mFrequency :: ALuint
  mChannelConfig :: ChannelConfig
  mSampleType :: SampleType
  mLoadStatus :: BufferLoadStatus
  mIsLoaded :: bool
  mName :: string

definition ALBuffer_new ::
  "ALuint \<Rightarrow> ALuint \<Rightarrow> ChannelConfig \<Rightarrow> SampleType \<Rightarrow> bool \<Rightarrow> string \<Rightarrow> ALBuffer" where
  "ALBuffer_new bid freq config type preloaded name =
     \<lparr>mId = bid, mFrequency = freq, mChannelConfig = config, mSampleType = type,
      mLoadStatus = (if preloaded then Ready else Pending), mIsLoaded = preloaded,
      mName = name\<rparr>"

text \<open>
  Modelled from the spec: \<^verbatim>\<open>ALBuffer::getLoadStatus\<close> is declared in buffer.h and defined
  in buffer.cpp, which is absent.  The load status goes from Pending to Ready, one way:
  a Pending buffer whose load has finished (the volatile flag \<^verbatim>\<open>mIsLoaded\<close>, set by the
  background worker) becomes Ready, and the call returns the status the buffer then has.
\<close>

definition getLoadStatus :: "ALBuffer \<Rightarrow> ALBuffer" where
  "getLoadStatus b =
     (if mLoadStatus b = Pending \<and> mIsLoaded b then b\<lparr>mLoadStatus := Ready\<rparr> else b)"

text \<open>
  An ALSource as getSourceId reads it: the hardware voice (0 when it holds none) and the
  priority.  Pointers to sources are their positions in \<^verbatim>\<open>mAllSources\<close>, compared as
  such.  Modelled from the spec: the constructor (source.cpp, absent) makes a source that
  holds no voice.
\<close>

record ALSource =
  sId :: ALuint
  sPriority :: ALuint

definition ALSource_new :: ALSource where
  "ALSource_new = \<lparr>sId = 0, sPriority = 0\<rparr>"

record MessageHandler =
  resourceNotFound :: "string \<Rightarrow> string"

record PendingBuffer =
  pbName :: string
  pbBuffer :: string
  pbDecoder :: Decoder
  pbFormat :: ALenum
  pbFrames :: "32 word"

datatype ALExtension =
  EXT_EFX | EXT_FLOAT32 | EXT_MCFORMATS | EXT_BFORMAT | EXT_MULAW | EXT_MULAW_MCFORMATS
| EXT_MULAW_BFORMAT | SOFT_loop_points | SOFT_source_latency | EXT_disconnect
| EXT_SOURCE_RADIUS | EXT_STEREO_ANGLES

text \<open>
  The calls a member function makes on the hardware API, on the message handler and on
  the worker thread, in the order it makes them.
\<close>

datatype event =
  AlGenBuffers "ALuint option"
| AlBufferData ALuint ALenum ALuint
| AlBufferiv ALuint "32 word" "32 word"
| AlDeleteBuffers ALuint
| AlGenSources "ALuint option"
| BufferLoading string ChannelConfig SampleType ALuint
| SourceStopped nat bool
| ThreadStart
| QuitStore
| NotifyAll
| ThreadJoin
| AlcDestroyContext "nat option"
| DeviceRemoveContext

text \<open>
  \<^verbatim>\<open>mSourceIds\<close> is a stack (\<^verbatim>\<open>top\<close>, \<^verbatim>\<open>pop\<close>): its top is the head of the list.
  \<^verbatim>\<open>mFreeSources\<close> is used through \<^verbatim>\<open>back()\<close>, \<^verbatim>\<open>pop()\<close> and \<^verbatim>\<open>push()\<close>, the interface of
  \<^verbatim>\<open>std::queue\<close>: \<^verbatim>\<open>push\<close> appends, \<^verbatim>\<open>back\<close> is the last element and \<^verbatim>\<open>pop\<close> removes the first.
  \<^verbatim>\<open>mThread\<close> is whether the worker thread has been started and not joined.
\<close>

record ALContext =
  mContext :: "nat option"
  mRefs :: nat
  mHasExt :: "ALExtension \<Rightarrow> bool"
  mMessage :: "MessageHandler option"
  mBuffers :: "ALBuffer list"
  mSourceIds :: "ALuint list"
  mAllSources :: "ALSource list"
  mFreeSources :: "nat list"
  mUsedSources :: "nat list"
  mPendingBuffers :: "PendingBuffer list"
  mThread :: bool
  mQuitThread :: bool
  trace :: "event list"

text \<open>
  What a call depends on outside the context object: the process-wide tables, the
  standard library's \<^verbatim>\<open>std::hash<String>\<close>, \<^verbatim>\<open>GetFormat\<close> (buffer.cpp), the outcome of each
  hardware call (an id or an error for \<^verbatim>\<open>alGenBuffers\<close> and \<^verbatim>\<open>alGenSources\<close>, success or
  error for the others), whether the context is the current one, what the worker thread
  has done by the k-th poll of a waiting loop, \<^verbatim>\<open>ALSource::makeStopped\<close> (source.cpp) and
  \<^verbatim>\<open>ALBuffer::cleanup\<close> (buffer.cpp).
\<close>

record World =
  filesystem :: "string \<Rightarrow> bool"
  sFileFactory :: "(string \<Rightarrow> istream option) option"
  sDecoders :: "(string \<times> DecoderFactory) list"
  sDefaults :: "(string \<times> DecoderFactory) list"
  hasher :: "string \<Rightarrow> nat"
  GetFormat :: "ChannelConfig \<Rightarrow> SampleType \<Rightarrow> ALenum"
  current :: bool
  alGenBuffers :: "ALuint option"
  alBufferData :: bool
  alBufferiv :: bool
  alGenSources :: "ALuint option"
  worker_done :: "nat \<Rightarrow> bool"
  write_space :: "nat \<Rightarrow> nat"
  makeStopped :: "nat \<Rightarrow> ALContext \<Rightarrow> ALContext"
  cleanup :: "ALBuffer \<Rightarrow> error option"

text \<open>
  Modelled from the spec: \<^verbatim>\<open>CheckContext\<close> (context.h, absent) fails when the context is
  not the one bound on the calling thread.
\<close>

definition not_current :: error where
  "not_current = RuntimeError ''Called context is not current''"

subsection \<open>std::lower_bound, vector insert and erase\<close>

text \<open>
  The halving loop of \<^verbatim>\<open>std::lower_bound(first, last, value, comp)\<close> with \<open>cmp\<close> the comparison
  already applied to \<open>value\<close>; \<open>first\<close> is a position in \<open>xs\<close> and \<open>count\<close> the length of the range.
\<close>

function lower_bound :: "'a list \<Rightarrow> ('a \<Rightarrow> bool) \<Rightarrow> nat \<Rightarrow> nat \<Rightarrow> nat" where
  "lower_bound xs cmp first count =
     (if 0 < count then
        (if cmp (xs ! (first + count div 2))
         then lower_bound xs cmp (first + count div 2 + 1) (count - (count div 2 + 1))
         else lower_bound xs cmp first (count div 2))
      else first)"
  by pat_completeness auto
termination
  by (relation "measure (\<lambda>(xs, cmp, first, count). count)") auto

definition insert_at :: "nat \<Rightarrow> 'a \<Rightarrow> 'a list \<Rightarrow> 'a list" where
  "insert_at i x xs = take i xs @ x # drop i xs"

definition erase_at :: "nat \<Rightarrow> 'a list \<Rightarrow> 'a list" where
  "erase_at i xs = take i xs @ drop (Suc i) xs"

text \<open>The lookup of lines 498-502, 575-579 and 627-631: the registry is searched by hash.\<close>

definition find_buffer :: "(string \<Rightarrow> nat) \<Rightarrow> ALBuffer list \<Rightarrow> string \<Rightarrow> nat" where
  "find_buffer h bufs name =
     lower_bound bufs (\<lambda>lhs. h (mName lhs) < h name) 0 (length bufs)"

subsection \<open>createDecoder (lines 468-485)\<close>

text \<open>
  The do-while loop that asks the message handler for substitute names.  It has no bound:
  a handler that keeps answering with names that do not open keeps it running, which is
  the value \<open>None\<close>.
\<close>

partial_function (option) substitute ::
  "(string \<Rightarrow> istream option) \<Rightarrow> (string \<Rightarrow> string) \<Rightarrow> string
     \<Rightarrow> (error + string \<times> istream) option" where
  "substitute opn rnf oldname =
     (let newname = rnf oldname in
      if newname = [] then Some (Inl (RuntimeError (''Failed to open '' @ oldname)))
      else (case opn newname of
              None \<Rightarrow> substitute opn rnf newname
            | Some file \<Rightarrow> Some (Inr (newname, file))))"

definition createDecoder :: "World \<Rightarrow> ALContext \<Rightarrow> string \<Rightarrow> (error + Decoder) option" where
  "createDecoder w ctx name =
     (let opn = openFile (filesystem w) (FileIOFactory_get (sFileFactory w)) in
      case opn name of
        Some file \<Rightarrow> Some (GetDecoder (sDecoders w) (sDefaults w) name (Some file))
      | None \<Rightarrow>
          (case mMessage ctx of
             None \<Rightarrow> Some (Inl (RuntimeError (''Failed to open '' @ name)))
           | Some handler \<Rightarrow>
               (case substitute opn (resourceNotFound handler) name of
                  None \<Rightarrow> None
                | Some (Inl e) \<Rightarrow> Some (Inl e)
                | Some (Inr (oldname, file)) \<Rightarrow>
                    Some (GetDecoder (sDecoders w) (sDefaults w) oldname (Some file)))))"

subsection \<open>getBuffer (lines 494-569)\<close>

text \<open>
  The loop \<^verbatim>\<open>while(buffer->getLoadStatus() == Pending) yield();\<close>.  Before the k-th poll
  the worker thread may have finished the load (\<open>done k\<close>) and set \<^verbatim>\<open>mIsLoaded\<close>.  The loop
  has no bound either.
\<close>

partial_function (option) wait_loaded :: "(nat \<Rightarrow> bool) \<Rightarrow> nat \<Rightarrow> ALBuffer \<Rightarrow> ALBuffer option" where
  "wait_loaded done k buffer =
     (if mLoadStatus (getLoadStatus (buffer\<lparr>mIsLoaded := mIsLoaded buffer \<or> done k\<rparr>)) = Pending
      then wait_loaded done (Suc k) (getLoadStatus (buffer\<lparr>mIsLoaded := mIsLoaded buffer \<or> done k\<rparr>))
      else Some (getLoadStatus (buffer\<lparr>mIsLoaded := mIsLoaded buffer \<or> done k\<rparr>)))"

text \<open>
  The sample bytes are not modelled.  The message of the "Format not supported" error is
  kept without the type and channel names that \<^verbatim>\<open>GetSampleTypeName\<close> and
  \<^verbatim>\<open>GetChannelConfigName\<close> (absent) append.  The hardware error flag is clear after
  \<^verbatim>\<open>alGetError()\<close> and is set by the first of the three calls that fails.
\<close>

definition getBuffer ::
  "World \<Rightarrow> string \<Rightarrow> ALContext \<Rightarrow> ((error + ALBuffer) \<times> ALContext) option" where
  "getBuffer w name ctx =
     (if \<not> current w then Some (Inl not_current, ctx)
      else
        let iter = find_buffer (hasher w) (mBuffers ctx) name in
        if iter \<noteq> length (mBuffers ctx) \<and> mName (mBuffers ctx ! iter) = name then
          (case wait_loaded (worker_done w) 0 (mBuffers ctx ! iter) of
             None \<Rightarrow> None
           | Some buffer \<Rightarrow> Some (Inr buffer, ctx\<lparr>mBuffers := (mBuffers ctx)[iter := buffer]\<rparr>))
        else
          (case createDecoder w ctx name of
             None \<Rightarrow> None
           | Some (Inl e) \<Rightarrow> Some (Inl e, ctx)
           | Some (Inr decoder) \<Rightarrow>
               Some
                (let srate = getFrequency decoder;
                     chans = getChannelConfig decoder;
                     type = getSampleType decoder;
                     frames = read decoder (getLength decoder)
                 in
                 if frames = 0 then (Inl (RuntimeError ''No samples for buffer''), ctx)
                 else
                   let loop_pts = normalize_loop_points (getLoopPoints decoder) frames;
                       format = GetFormat w chans type
                   in
                   if format = AL_NONE then (Inl (RuntimeError ''Format not supported''), ctx)
                   else
                     let ctx1 = (if mMessage ctx \<noteq> None
                                 then ctx\<lparr>trace := trace ctx @ [BufferLoading name chans type srate]\<rparr>
                                 else ctx);
                         bid = (case alGenBuffers w of Some i \<Rightarrow> i | None \<Rightarrow> 0);
                         calls = [AlGenBuffers (alGenBuffers w), AlBufferData bid format srate]
                                 @ (if mHasExt ctx SOFT_loop_points
                                    then [AlBufferiv bid (ucast (fst loop_pts)) (ucast (snd loop_pts))]
                                    else []);
                         failed = (alGenBuffers w = None \<or> \<not> alBufferData w
                                   \<or> (mHasExt ctx SOFT_loop_points \<and> \<not> alBufferiv w))
                     in
                     if failed
                     then (Inl (RuntimeError ''Failed to buffer data''),
                           ctx1\<lparr>trace := trace ctx1 @ calls @ [AlDeleteBuffers bid]\<rparr>)
                     else
                       let buffer = ALBuffer_new bid srate chans type True name in
                       (Inr buffer,
                        ctx1\<lparr>trace := trace ctx1 @ calls,
                             mBuffers := insert_at iter buffer (mBuffers ctx)\<rparr>))))"

subsection \<open>getBufferAsync (lines 571-621) and removeBuffer (lines 624-637)\<close>

text \<open>The loop \<^verbatim>\<open>while(mPendingBuffers.write_space() == 0) yield();\<close>, unbounded as well.\<close>

partial_function (option) wait_write_space :: "(nat \<Rightarrow> nat) \<Rightarrow> nat \<Rightarrow> nat option" where
  "wait_write_space ws k = (if ws k = 0 then wait_write_space ws (Suc k) else Some k)"

definition getBufferAsync ::
  "World \<Rightarrow> string \<Rightarrow> ALContext \<Rightarrow> ((error + ALBuffer) \<times> ALContext) option" where
  "getBufferAsync w name ctx =
     (if \<not> current w then Some (Inl not_current, ctx)
      else
        let iter = find_buffer (hasher w) (mBuffers ctx) name in
        if iter \<noteq> length (mBuffers ctx) \<and> mName (mBuffers ctx ! iter) = name then
          Some (Inr (mBuffers ctx ! iter), ctx)
        else
          (case createDecoder w ctx name of
             None \<Rightarrow> None
           | Some (Inl e) \<Rightarrow> Some (Inl e, ctx)
           | Some (Inr decoder) \<Rightarrow>
               (let srate = getFrequency decoder;
                    chans = getChannelConfig decoder;
                    type = getSampleType decoder;
                    frames = getLength decoder
                in
                if frames = 0 then Some (Inl (RuntimeError ''No samples for buffer''), ctx)
                else
                  let format = GetFormat w chans type in
                  if format = AL_NONE then Some (Inl (RuntimeError ''Format not supported''), ctx)
                  else
                    (case alGenBuffers w of
                       None \<Rightarrow>
                         Some (Inl (RuntimeError ''Failed to buffer data''),
                               ctx\<lparr>trace := trace ctx @ [AlGenBuffers None]\<rparr>)
                     | Some bid \<Rightarrow>
                         let buffer = ALBuffer_new bid srate chans type False name;
                             started = (if mThread ctx then [] else [ThreadStart])
                         in
                         (case wait_write_space (write_space w) 0 of
                            None \<Rightarrow> None
                          | Some k \<Rightarrow>
                              Some (Inr buffer,
                                    ctx\<lparr>mThread := True,
                                        mPendingBuffers := mPendingBuffers ctx @
                                          [\<lparr>pbName = name, pbBuffer = name, pbDecoder = decoder,
                                            pbFormat = format, pbFrames = frames\<rparr>],
                                        trace := trace ctx @ [AlGenBuffers (Some bid)] @ started
                                                   @ [NotifyAll],
                                        mBuffers := insert_at iter buffer (mBuffers ctx)\<rparr>))))))"

definition removeBuffer :: "World \<Rightarrow> string \<Rightarrow> ALContext \<Rightarrow> (error + unit) \<times> ALContext" where
  "removeBuffer w name ctx =
     (if \<not> current w then (Inl not_current, ctx)
      else
        let iter = find_buffer (hasher w) (mBuffers ctx) name in
        if iter \<noteq> length (mBuffers ctx) \<and> mName (mBuffers ctx ! iter) = name then
          (case cleanup w (mBuffers ctx ! iter) of
             Some e \<Rightarrow> (Inl e, ctx)
           | None \<Rightarrow> (Inr (), ctx\<lparr>mBuffers := erase_at iter (mBuffers ctx)\<rparr>))
        else (Inr (), ctx))"

subsection \<open>getSourceId (lines 645-676)\<close>

text \<open>
  The scan of lines 657-662 over \<^verbatim>\<open>mUsedSources\<close>: \<open>lowest\<close> is replaced only by a source
  that holds a voice and has a strictly lower priority.
\<close>

fun scan_lowest :: "ALSource list \<Rightarrow> nat list \<Rightarrow> nat option \<Rightarrow> nat option" where
  "scan_lowest srcs [] lowest = lowest"
| "scan_lowest srcs (src # rest) lowest =
     scan_lowest srcs rest
       (if sId (srcs ! src) \<noteq> 0 \<and>
           (case lowest of None \<Rightarrow> True
            | Some l \<Rightarrow> sPriority (srcs ! src) < sPriority (srcs ! l))
        then Some src else lowest)"

text \<open>Lines 670-675: take the top of \<^verbatim>\<open>mSourceIds\<close>, or fail when there is none.\<close>

definition take_source_id :: "ALContext \<Rightarrow> (error + ALuint) \<times> ALContext" where
  "take_source_id ctx =
     (case mSourceIds ctx of
        [] \<Rightarrow> (Inl (RuntimeError ''No available sources''), ctx)
      | i # rest \<Rightarrow> (Inr i, ctx\<lparr>mSourceIds := rest\<rparr>))"

definition getSourceId :: "World \<Rightarrow> ALuint \<Rightarrow> ALContext \<Rightarrow> (error + ALuint) \<times> ALContext" where
  "getSourceId w maxprio ctx =
     (if \<not> current w then (Inl not_current, ctx)
      else if mSourceIds ctx = [] then
        (case alGenSources w of
           Some i \<Rightarrow> (Inr i, ctx\<lparr>trace := trace ctx @ [AlGenSources (Some i)]\<rparr>)
         | None \<Rightarrow>
             let ctx1 = ctx\<lparr>trace := trace ctx @ [AlGenSources None]\<rparr> in
             (case scan_lowest (mAllSources ctx1) (mUsedSources ctx1) None of
                None \<Rightarrow> take_source_id ctx1
              | Some lowest \<Rightarrow>
                  if sPriority (mAllSources ctx1 ! lowest) < maxprio then
                    let ctx2 = makeStopped w lowest ctx1 in
                    take_source_id
                      (if mMessage ctx2 \<noteq> None
                       then ctx2\<lparr>trace := trace ctx2 @ [SourceStopped lowest True]\<rparr>
                       else ctx2)
                  else take_source_id ctx1))
      else take_source_id ctx)"

text \<open>
  Modelled from the spec: \<^verbatim>\<open>ALSource::makeStopped\<close> is defined in source.cpp, which is
  absent.  A source that is stopped gives its voice back to the free stack and holds
  none afterwards.  getSourceId takes \<open>makeStopped\<close> from the world; this is the instance
  used where one is needed.
\<close>

definition makeStopped_spec :: "nat \<Rightarrow> ALContext \<Rightarrow> ALContext" where
  "makeStopped_spec src ctx =
     ctx\<lparr>mSourceIds := sId (mAllSources ctx ! src) # mSourceIds ctx,
         mAllSources := (mAllSources ctx)[src := (mAllSources ctx ! src)\<lparr>sId := 0\<rparr>]\<rparr>"

subsection \<open>createSource and freeSource (lines 679-705)\<close>

definition createSource :: "World \<Rightarrow> ALContext \<Rightarrow> (error + nat) \<times> ALContext" where
  "createSource w ctx =
     (if \<not> current w then (Inl not_current, ctx)
      else
        let source = (if mFreeSources ctx \<noteq> [] then last (mFreeSources ctx)
                      else length (mAllSources ctx));
            ctx1 = (if mFreeSources ctx \<noteq> [] then ctx\<lparr>mFreeSources := tl (mFreeSources ctx)\<rparr>
                    else ctx\<lparr>mAllSources := mAllSources ctx @ [ALSource_new]\<rparr>);
            iter = lower_bound (mUsedSources ctx1) (\<lambda>p. p < source) 0 (length (mUsedSources ctx1))
        in
        if iter = length (mUsedSources ctx1) \<or> mUsedSources ctx1 ! iter \<noteq> source
        then (Inr source, ctx1\<lparr>mUsedSources := insert_at iter source (mUsedSources ctx1)\<rparr>)
        else (Inr source, ctx1))"

definition freeSource :: "nat \<Rightarrow> ALContext \<Rightarrow> ALContext" where
  "freeSource source ctx =
     (let iter = lower_bound (mUsedSources ctx) (\<lambda>p. p < source) 0 (length (mUsedSources ctx));
          ctx1 = (if iter \<noteq> length (mUsedSources ctx) \<and> mUsedSources ctx ! iter = source
                  then ctx\<lparr>mUsedSources := erase_at iter (mUsedSources ctx)\<rparr>
                  else ctx)
      in ctx1\<lparr>mFreeSources := mFreeSources ctx1 @ [source]\<rparr>)"

text \<open>
  A sequence of createSource and freeSource calls on a current context.  A call
  \<^verbatim>\<open>freeSource(p)\<close> is well-formed when \<open>p\<close> points to a source that has been allocated.
\<close>

datatype source_call = CreateSource | FreeSource nat

fun run_calls :: "World \<Rightarrow> source_call list \<Rightarrow> ALContext \<Rightarrow> ALContext" where
  "run_calls w [] ctx = ctx"
| "run_calls w (CreateSource # calls) ctx = run_calls w calls (snd (createSource w ctx))"
| "run_calls w (FreeSource p # calls) ctx = run_calls w calls (freeSource p ctx)"

fun calls_wf :: "World \<Rightarrow> source_call list \<Rightarrow> ALContext \<Rightarrow> bool" where
  "calls_wf w [] ctx = True"
| "calls_wf w (CreateSource # calls) ctx = calls_wf w calls (snd (createSource w ctx))"
| "calls_wf w (FreeSource p # calls) ctx =
     (p < length (mAllSources ctx) \<and> calls_wf w calls (freeSource p ctx))"

subsection \<open>The constructor and destroy (lines 366-381, 405-425)\<close>

definition ALContext_new :: "nat option \<Rightarrow> ALContext" where
  "ALContext_new context =
     \<lparr>mContext = context, mRefs = 0, mHasExt = (\<lambda>e. False), mMessage = None, mBuffers = [],
      mSourceIds = [], mAllSources = [], mFreeSources = [], mUsedSources = [],
      mPendingBuffers = [], mThread = False, mQuitThread = False, trace = []\<rparr>"

definition destroy :: "ALContext \<Rightarrow> (error + unit) \<times> ALContext" where
  "destroy ctx =
     (if mRefs ctx \<noteq> 0 then (Inl (RuntimeError ''Context is in use''), ctx)
      else if mBuffers ctx \<noteq> []
      then (Inl (RuntimeError ''Trying to destroy a context with buffers''), ctx)
      else
        let ctx1 = (if mThread ctx
                    then ctx\<lparr>mQuitThread := True, mThread := False,
                             trace := trace ctx @ [QuitStore, NotifyAll, ThreadJoin]\<rparr>
                    else ctx)
        in (Inr (), ctx1\<lparr>mContext := None,
                         trace := trace ctx1 @ [AlcDestroyContext (mContext ctx1), DeviceRemoveContext]\<rparr>))"

text \<open>
  The invariant of the source pool: the used-source index is sorted and free of
  duplicates, and it and the free list only hold pointers to allocated sources.
\<close>

definition sources_inv :: "ALContext \<Rightarrow> bool" where
  "sources_inv ctx \<longleftrightarrow>
     sorted (mUsedSources ctx) \<and> distinct (mUsedSources ctx) \<and>
     (\<forall>p\<in>set (mUsedSources ctx). p < length (mAllSources ctx)) \<and>
     (\<forall>p\<in>set (mFreeSources ctx). p < length (mAllSources ctx))"

subsection \<open>A concrete world for the examples\<close>

text \<open>
  \<^verbatim>\<open>std::hash<String>\<close> is left to the standard library.  This one is the 64-bit FNV-1a
  hash (offset basis 14695981039346656037, prime 1099511628211) that the Microsoft
  standard library uses for strings.
\<close>

definition fnv1a :: "string \<Rightarrow> nat" where
  "fnv1a s =
     unat (fold (\<lambda>c h. (h XOR of_nat (of_char c)) * 1099511628211) s
             (14695981039346656037 :: 64 word))"

definition demo_decoder :: Decoder where
  "demo_decoder =
     \<lparr>getFrequency = 44100, getChannelConfig = 2, getSampleType = 2, getLength = 100,
      read = (\<lambda>n. n), getLoopPoints = (10, 500)\<rparr>"

text \<open>A factory that accepts any stream, and one that reads four bytes and rejects.\<close>

definition accepting :: "Decoder \<Rightarrow> DecoderFactory" where
  "accepting d file = (Some d, file)"

definition rejecting :: DecoderFactory where
  "rejecting file = (None, map_option (\<lambda>s. s\<lparr>gpos := gpos s + 4\<rparr>) file)"

definition demo_world :: World where
  "demo_world =
     \<lparr>filesystem = (\<lambda>n. True), sFileFactory = None, sDecoders = [],
      sDefaults = sDefaultDecoders (accepting demo_decoder) (\<lambda>n. None),
      hasher = fnv1a, GetFormat = (\<lambda>c t. 4353), current = True,
      alGenBuffers = Some 7, alBufferData = True, alBufferiv = True, alGenSources = None,
      worker_done = (\<lambda>k. 2 \<le> k), write_space = (\<lambda>k. 4),
      makeStopped = makeStopped_spec, cleanup = (\<lambda>b. None)\<rparr>"

text \<open>A run of RegisterDecoder calls, in the order the application makes them.\<close>

fun register_all ::
  "(string \<times> DecoderFactory) list \<Rightarrow> (string \<times> DecoderFactory) list
     \<Rightarrow> error + (string \<times> DecoderFactory) list" where
  "register_all [] tbl = Inr tbl"
| "register_all (r # rs) tbl =
     (case RegisterDecoder (fst r) (snd r) tbl of
        Inl e \<Rightarrow> Inl e
      | Inr tbl' \<Rightarrow> register_all rs tbl')"

definition demo_stream :: istream where
  "demo_stream = \<lparr>path = ''x.wav'', binary = True, gpos = 0, failbit = False, seekable = True\<rparr>"

text \<open>A full pool of three voices for the examples: priorities 5, 1 and 1.\<close>

definition demo_pool :: ALContext where
  "demo_pool =
     (ALContext_new None)
       \<lparr>mMessage := Some \<lparr>resourceNotFound = (\<lambda>n. [])\<rparr>,
        mAllSources := [\<lparr>sId = 11, sPriority = 5\<rparr>, \<lparr>sId = 12, sPriority = 1\<rparr>,
                        \<lparr>sId = 13, sPriority = 1\<rparr>],
        mUsedSources := [0, 1, 2]\<rparr>"

text \<open>A registry holding one buffer "a" that an asynchronous fetch has left Pending.\<close>

definition demo_registry :: ALContext where
  "demo_registry =
     (ALContext_new None)\<lparr>mBuffers := [ALBuffer_new 7 44100 2 2 False ''a'']\<rparr>"

text \<open>
  Synchronous fetches of several names in a row, the hardware handing out the given
  buffer id on each call.
\<close>

fun getBuffers :: "World \<Rightarrow> (string \<times> ALuint) list \<Rightarrow> ALContext \<Rightarrow> ALContext option" where
  "getBuffers w [] ctx = Some ctx"
| "getBuffers w (n # ns) ctx =
     (case getBuffer (w\<lparr>alGenBuffers := Some (snd n)\<rparr>) (fst n) ctx of
        Some (Inr buffer, ctx') \<Rightarrow> getBuffers w ns ctx'
      | _ \<Rightarrow> None)"

text \<open>
  Where \<^verbatim>\<open>size_t\<close> has 32 bits the same library hashes a string with the 32-bit FNV-1a
  hash (offset basis 2166136261, prime 16777619).  Two names are enough to make it
  collide: "liquid" and "costarring" both hash to 1582148253.
\<close>

definition fnv1a32 :: "string \<Rightarrow> nat" where
  "fnv1a32 s =
     unat (fold (\<lambda>c h. (h XOR of_nat (of_char c)) * 16777619) s (2166136261 :: 32 word))"

text \<open>
  The example world with that hash, a worker thread that never finishes a load, and the
  hardware handing out buffer id \<open>i\<close>.
\<close>

definition collision_world :: "ALuint \<Rightarrow> World" where
  "collision_world i =
     demo_world\<lparr>hasher := fnv1a32, worker_done := (\<lambda>k. False), alGenBuffers := Some i\<rparr>"

section \<open>Loop-point normalisation\<close>

lemma ucast_frames_unat: "unat (ucast (frames :: 32 word) :: 64 word) = unat frames"
proof -
  have "unat frames < 2 ^ 32" using unsigned_less [of frames, where 'a=nat] by simp
  then have "unat frames < (2::nat) ^ 64" by simp
  then show ?thesis by (simp add: unsigned_ucast_eq take_bit_nat_eq_self)
qed

lemma ucast_frames_nonzero: "frames \<noteq> 0 \<Longrightarrow> (ucast (frames :: 32 word) :: 64 word) \<noteq> 0"
  using ucast_frames_unat [of frames] by (metis unat_eq_0)

lemma normalize_loop_points_unat:
  assumes "frames \<noteq> 0" and eq: "normalize_loop_points (s, e) frames = (s', e')"
  shows "(e \<le> s \<longrightarrow> unat s' = 0 \<and> unat e' = unat frames) \<and>
     (s < e \<longrightarrow> unat e' = min (unat e) (unat frames) \<and> unat s' = min (unat s) (unat e' - 1))"
proof -
  let ?f = "ucast frames :: 64 word"
  have f0: "?f \<noteq> 0" using assms(1) by (rule ucast_frames_nonzero)
  show ?thesis
  proof (cases "e \<le> s")
    case True
    with eq show ?thesis by (auto simp: normalize_loop_points_def ucast_frames_unat)
  next
    case False
    then have lt: "s < e" by simp
    then have e0: "e \<noteq> 0" by (metis word_not_simps(1))
    have e': "e' = min e ?f" and s': "s' = min s (e' - 1)"
      using eq False by (auto simp: normalize_loop_points_def Let_def)
    have e'0: "e' \<noteq> 0" using e0 f0 e' by (simp add: min_def)
    have u1: "unat (e' - 1) = unat e' - 1" using e'0 by (simp add: unat_minus_one)
    have "unat e' = min (unat e) (unat frames)"
      unfolding e' by (simp add: min_def word_le_nat_alt ucast_frames_unat)
    moreover have "unat s' = min (unat s) (unat e' - 1)"
      unfolding s' using u1 by (simp add: min_def word_le_nat_alt)
    ultimately show ?thesis using False by simp
  qed
qed

text \<open>
  Claim C6.  On a freshly decoded buffer of \<open>frames\<close> frames (\<open>frames \<noteq> 0\<close>: getBuffer has
  thrown "No samples for buffer" otherwise), a decoder-reported pair with \<open>start \<ge> end\<close>
  becomes \<open>(0, frames)\<close>; otherwise \<open>end\<close> becomes \<open>min end frames\<close> and \<open>start\<close> becomes
  \<open>min start (end' - 1)\<close> for that clamped \<open>end'\<close>, with no wrap-around, so that the result
  always satisfies \<open>start' < end' \<le> frames\<close>.  On a 100-frame buffer \<open>(5,3)\<close> gives
  \<open>(0,100)\<close> and \<open>(10,500)\<close> gives \<open>(10,100)\<close>.
\<close>

theorem loop_points_normalized:
  assumes "frames \<noteq> 0"
  shows "(e \<le> s \<longrightarrow> normalize_loop_points (s, e) frames = (0, ucast frames)) \<and>
         (s < e \<longrightarrow>
            unat (snd (normalize_loop_points (s, e) frames)) = min (unat e) (unat frames) \<and>
            unat (fst (normalize_loop_points (s, e) frames)) =
              min (unat s) (min (unat e) (unat frames) - 1)) \<and>
         unat (fst (normalize_loop_points (s, e) frames))
           < unat (snd (normalize_loop_points (s, e) frames)) \<and>
         unat (snd (normalize_loop_points (s, e) frames)) \<le> unat frames \<and>
         normalize_loop_points (5, 3) 100 = (0, 100) \<and>
         normalize_loop_points (10, 500) 100 = (10, 100)"
proof -
  obtain s' e' where eq: "normalize_loop_points (s, e) frames = (s', e')"
    by (cases "normalize_loop_points (s, e) frames")
  note u = normalize_loop_points_unat [OF assms eq]
  have f: "0 < unat frames" using assms by (simp add: unat_gt_0)
  have a: "e \<le> s \<longrightarrow> normalize_loop_points (s, e) frames = (0, ucast frames)"
    by (simp add: normalize_loop_points_def)
  have b: "s < e \<longrightarrow> unat e' = min (unat e) (unat frames) \<and>
             unat s' = min (unat s) (min (unat e) (unat frames) - 1)"
    using u by simp
  have c: "unat s' < unat e' \<and> unat e' \<le> unat frames"
  proof (cases "e \<le> s")
    case True
    then show ?thesis using u f by simp
  next
    case False
    then have "s < e" by simp
    then have lt: "unat s < unat e" by (simp add: word_less_nat_alt)
    then show ?thesis using u f False by (auto simp: min_def)
  qed
  have d: "normalize_loop_points (5, 3) 100 = (0, 100)"
    by (simp add: normalize_loop_points_def)
  have e: "normalize_loop_points (10, 500) 100 = (10, 100)"
    by (simp add: normalize_loop_points_def)
  show ?thesis using a b c d e by (simp add: eq)
qed

theorem loop_points_normalized_witness:
  "(100 :: 32 word) \<noteq> 0 \<and> normalize_loop_points (200, 500) 100 = (99, 100) \<and>
   unat (fst (normalize_loop_points (200, 500) 100)) = min 200 (min 500 100 - 1)"
  using loop_points_normalized [of 100 500 200]
  by (simp add: normalize_loop_points_def Let_def)

section \<open>Binary search on sorted vectors\<close>

declare lower_bound.simps [simp del]

lemma lower_bound_partition:
  assumes "first \<le> k" and "k \<le> first + count" and "first + count \<le> length xs"
    and "\<forall>i<k. cmp (xs ! i)" and "\<forall>i. k \<le> i \<and> i < length xs \<longrightarrow> \<not> cmp (xs ! i)"
  shows "lower_bound xs cmp first count = k"
  using assms
proof (induction xs cmp first count rule: lower_bound.induct)
  case (1 xs cmp first count)
  show ?case
  proof (cases "0 < count")
    case False
    with "1.prems" show ?thesis by (simp add: lower_bound.simps)
  next
    case True
    let ?it = "first + count div 2"
    have it: "?it < first + count" using True by simp
    show ?thesis
    proof (cases "cmp (xs ! ?it)")
      case c: True
      have "?it < k"
      proof (rule ccontr)
        assume "\<not> ?it < k"
        then have "k \<le> ?it \<and> ?it < length xs" using it "1.prems"(3) by simp
        with "1.prems"(5) c show False by blast
      qed
      then have "lower_bound xs cmp (?it + 1) (count - (count div 2 + 1)) = k"
        using "1.IH"(1) [OF True c] "1.prems" True by simp
      then show ?thesis using True c by (simp add: lower_bound.simps [of xs cmp first count])
    next
      case c: False
      have "k \<le> ?it"
      proof (rule ccontr)
        assume "\<not> k \<le> ?it"
        then have "?it < k" by simp
        with "1.prems"(4) c show False by blast
      qed
      then have "lower_bound xs cmp first (count div 2) = k"
        using "1.IH"(2) [OF True c] "1.prems" by simp
      then show ?thesis using True c by (simp add: lower_bound.simps [of xs cmp first count])
    qed
  qed
qed

lemma lower_bound_sorted:
  assumes "sorted (map f xs)"
  shows "lower_bound xs (\<lambda>x. f x < (v::nat)) 0 (length xs) = length (takeWhile (\<lambda>x. f x < v) xs)"
proof (rule lower_bound_partition)
  let ?k = "length (takeWhile (\<lambda>x. f x < v) xs)"
  show "0 \<le> ?k" by simp
  show "?k \<le> 0 + length xs" by (simp add: length_takeWhile_le)
  show "0 + length xs \<le> length xs" by simp
  show "\<forall>i<?k. f (xs ! i) < v"
    using nth_mem [of _ "takeWhile (\<lambda>x. f x < v) xs"] 
    by (metis (mono_tags, lifting) set_takeWhileD takeWhile_nth)
  show "\<forall>i. ?k \<le> i \<and> i < length xs \<longrightarrow> \<not> f (xs ! i) < v"
  proof (intro allI impI)
    fix i assume i: "?k \<le> i \<and> i < length xs"
    then have "?k < length xs" by simp
    then have "\<not> f (xs ! ?k) < v" by (rule nth_length_takeWhile)
    moreover have "f (xs ! ?k) \<le> f (xs ! i)"
      using assms i sorted_nth_mono [of "map f xs" ?k i] by simp
    ultimately show "\<not> f (xs ! i) < v" by simp
  qed
qed

lemma insert_at_takeWhile:
  "insert_at (length (takeWhile P xs)) y xs = takeWhile P xs @ y # dropWhile P xs"
  by (simp add: insert_at_def takeWhile_eq_take [symmetric] dropWhile_eq_drop [symmetric])

lemma sorted_insert_at:
  assumes "sorted (map f xs)" and "f y = (v::nat)"
  shows "sorted (map f (insert_at (length (takeWhile (\<lambda>x. f x < v) xs)) y xs))"
proof -
  let ?P = "\<lambda>x. f x < v"
  have split: "xs = takeWhile ?P xs @ dropWhile ?P xs" by simp
  have s1: "sorted (map f (takeWhile ?P xs))" and s2: "sorted (map f (dropWhile ?P xs))"
    using assms(1) split by (metis map_append sorted_append)+
  have lo: "\<forall>a\<in>set (takeWhile ?P xs). f a < v" by (auto dest: set_takeWhileD)
  have hi: "\<forall>b\<in>set (dropWhile ?P xs). v \<le> f b"
  proof
    fix b assume b: "b \<in> set (dropWhile ?P xs)"
    then have ne: "dropWhile ?P xs \<noteq> []" by (metis empty_iff list.set(1))
    then have h: "\<not> ?P (hd (dropWhile ?P xs))" by (rule hd_dropWhile)
    have "f (hd (dropWhile ?P xs)) \<le> f b"
      using s2 b ne by (cases "dropWhile ?P xs") auto
    with h show "v \<le> f b" by simp
  qed
  have cross: "\<forall>a\<in>set (takeWhile ?P xs). \<forall>b\<in>set (dropWhile ?P xs). f a \<le> f b"
    using lo hi by (meson less_imp_le order_trans)
  show ?thesis
    unfolding insert_at_takeWhile using s1 s2 lo hi cross assms(2)
    by (simp add: sorted_append less_imp_le)
qed

lemma sorted_erase_at:
  assumes "sorted (map f xs)"
  shows "sorted (map (f :: 'a \<Rightarrow> nat) (erase_at i xs))"
proof -
  have "xs = take i xs @ drop i xs" by simp
  then have "sorted (map f (take i xs) @ map f (drop i xs))" using assms by (metis map_append)
  then have a: "sorted (map f (take i xs))" and b: "sorted (map f (drop i xs))"
     and c: "\<forall>x\<in>set (take i xs). \<forall>y\<in>set (drop i xs). f x \<le> f y"
    by (auto simp: sorted_append)
  have d: "drop (Suc i) xs = tl (drop i xs)" by (simp add: drop_Suc tl_drop)
  have "sorted (map f (drop (Suc i) xs))" using b unfolding d by (cases "drop i xs") auto
  moreover have "set (drop (Suc i) xs) \<subseteq> set (drop i xs)" by (simp add: set_drop_subset_set_drop)
  ultimately show ?thesis using a c by (auto simp: erase_at_def sorted_append)
qed

section \<open>The file factory\<close>

text \<open>
  Claim C10.  \<^verbatim>\<open>FileIOFactory::get\<close> always yields a factory: the user's when one is
  installed and otherwise, also after \<^verbatim>\<open>FileIOFactory::set\<close> has installed none, the
  built-in default, whose \<^verbatim>\<open>openFile\<close> opens the given name as a binary file stream and
  yields no stream exactly when the file cannot be opened.  \<^verbatim>\<open>FileIOFactory::set\<close> returns
  the previously installed user factory, which is none when the default was active.
\<close>

theorem FileIOFactory_get_default:
  "(FileIOFactory_get s = DefaultFileIOFactory \<longleftrightarrow> s = None) \<and>
   FileIOFactory_get (Some f) = UserFileIOFactory f \<and>
   FileIOFactory_get (snd (FileIOFactory_set None s)) = DefaultFileIOFactory \<and>
   fst (FileIOFactory_set factory s) = s \<and>
   fst (FileIOFactory_set factory None) = None \<and>
   FileIOFactory_get (snd (FileIOFactory_set factory s)) =
     (case factory of None \<Rightarrow> DefaultFileIOFactory | Some g \<Rightarrow> UserFileIOFactory g) \<and>
   (openFile fs DefaultFileIOFactory name = None \<longleftrightarrow> \<not> fs name) \<and>
   (fs name \<longrightarrow>
      (\<exists>file. openFile fs DefaultFileIOFactory name = Some file \<and> path file = name \<and>
         binary file \<and> gpos file = 0 \<and> \<not> failbit file))"
  by (simp add: FileIOFactory_get_def FileIOFactory_set_def split: option.splits)

theorem FileIOFactory_get_default_witness:
  "FileIOFactory_get (snd (FileIOFactory_set None (Some (\<lambda>n. None)))) = DefaultFileIOFactory \<and>
   fst (FileIOFactory_set None (Some (\<lambda>n. None))) = Some (\<lambda>n. None) \<and>
   openFile (\<lambda>n. n = ''a.wav'') DefaultFileIOFactory ''b.wav'' = None \<and>
   (\<exists>file. openFile (\<lambda>n. n = ''a.wav'') DefaultFileIOFactory ''a.wav'' = Some file \<and>
      path file = ''a.wav'' \<and> binary file \<and> gpos file = 0 \<and> \<not> failbit file)"
  using FileIOFactory_get_default
    [of "Some (\<lambda>n. None)" "\<lambda>n. None" None "\<lambda>n. n = ''a.wav''" "''b.wav''"]
    FileIOFactory_get_default
    [of "Some (\<lambda>n. None)" "\<lambda>n. None" None "\<lambda>n. n = ''a.wav''" "''a.wav''"]
  by simp

section \<open>Destroying a context\<close>

text \<open>
  Claim C8.  \<^verbatim>\<open>destroy\<close> fails with "Context is in use" when the reference count is not
  zero and with "Trying to destroy a context with buffers" when the registry is not
  empty, and then leaves the context as it was.  With no references and an empty
  registry it succeeds; the worker thread, when one is running, is told to quit, woken
  and joined, in this order and before \<^verbatim>\<open>alcDestroyContext\<close>; a context whose worker
  was never started goes to \<^verbatim>\<open>alcDestroyContext\<close> directly.
\<close>

theorem destroy_joins_worker_first:
  "(mRefs ctx \<noteq> 0 \<longrightarrow> destroy ctx = (Inl (RuntimeError ''Context is in use''), ctx)) \<and>
   (mRefs ctx = 0 \<and> mBuffers ctx \<noteq> [] \<longrightarrow>
      destroy ctx = (Inl (RuntimeError ''Trying to destroy a context with buffers''), ctx)) \<and>
   (mRefs ctx = 0 \<and> mBuffers ctx = [] \<longrightarrow>
      fst (destroy ctx) = Inr () \<and> mContext (snd (destroy ctx)) = None \<and>
      \<not> mThread (snd (destroy ctx)) \<and>
      (mThread ctx \<longrightarrow>
         mQuitThread (snd (destroy ctx)) \<and>
         trace (snd (destroy ctx)) =
           trace ctx @ [QuitStore, NotifyAll, ThreadJoin,
                        AlcDestroyContext (mContext ctx), DeviceRemoveContext]) \<and>
      (\<not> mThread ctx \<longrightarrow>
         mQuitThread (snd (destroy ctx)) = mQuitThread ctx \<and>
         trace (snd (destroy ctx)) =
           trace ctx @ [AlcDestroyContext (mContext ctx), DeviceRemoveContext]))"
  by (simp add: destroy_def Let_def)

theorem destroy_joins_worker_first_witness:
  "mRefs ((ALContext_new (Some 7))\<lparr>mThread := True\<rparr>) = 0 \<and>
   mBuffers ((ALContext_new (Some 7))\<lparr>mThread := True\<rparr>) = [] \<and>
   mThread ((ALContext_new (Some 7))\<lparr>mThread := True\<rparr>) \<and>
   fst (destroy ((ALContext_new (Some 7))\<lparr>mThread := True\<rparr>)) = Inr () \<and>
   trace (snd (destroy ((ALContext_new (Some 7))\<lparr>mThread := True\<rparr>))) =
     [QuitStore, NotifyAll, ThreadJoin, AlcDestroyContext (Some 7), DeviceRemoveContext] \<and>
   destroy ((ALContext_new (Some 7))\<lparr>mRefs := 2\<rparr>) =
     (Inl (RuntimeError ''Context is in use''), (ALContext_new (Some 7))\<lparr>mRefs := 2\<rparr>)"
  using destroy_joins_worker_first [of "(ALContext_new (Some 7))\<lparr>mThread := True\<rparr>"]
    destroy_joins_worker_first [of "(ALContext_new (Some 7))\<lparr>mRefs := 2\<rparr>"]
  by (simp add: ALContext_new_def)

section \<open>The source pool\<close>

lemma lower_bound_ptr:
  "sorted xs \<Longrightarrow> lower_bound xs (\<lambda>p. p < (v::nat)) 0 (length xs) = length (takeWhile (\<lambda>p. p < v) xs)"
  using lower_bound_sorted [of "\<lambda>x. x" xs v] by simp

lemma nth_takeWhile_found:
  assumes "sorted xs"
  shows "(length (takeWhile (\<lambda>p. p < (v::nat)) xs) \<noteq> length xs \<and>
          xs ! length (takeWhile (\<lambda>p. p < v) xs) = v) \<longleftrightarrow> v \<in> set xs"
proof
  let ?P = "\<lambda>p. p < v"
  let ?k = "length (takeWhile ?P xs)"
  assume "?k \<noteq> length xs \<and> xs ! ?k = v"
  moreover have "?k \<le> length xs" by (rule length_takeWhile_le)
  ultimately have "?k < length xs" "xs ! ?k = v" by simp_all
  then show "v \<in> set xs" by (metis nth_mem)
next
  let ?P = "\<lambda>p. p < v"
  let ?k = "length (takeWhile ?P xs)"
  assume v: "v \<in> set xs"
  have "v \<notin> set (takeWhile ?P xs)"
  proof
    assume "v \<in> set (takeWhile ?P xs)"
    then have "v < v" by (rule set_takeWhileD [THEN conjunct2])
    then show False by simp
  qed
  then have ne: "takeWhile ?P xs \<noteq> xs" using v by metis
  then have k: "?k < length xs"
    by (metis length_takeWhile_le le_neq_implies_less takeWhile_eq_take take_all order_refl)
  then have a: "\<not> xs ! ?k < v" by (rule nth_length_takeWhile)
  obtain i where i: "i < length xs" "xs ! i = v" using v by (auto simp: in_set_conv_nth)
  have "?k \<le> i"
  proof (rule ccontr)
    assume "\<not> ?k \<le> i"
    then have "i < ?k" by simp
    then have "xs ! i < v" by (metis (mono_tags, lifting) nth_mem set_takeWhileD takeWhile_nth)
    with i show False by simp
  qed
  then have "xs ! ?k \<le> xs ! i" using assms i(1) by (metis sorted_nth_mono)
  with a i have "xs ! ?k = v" by simp
  with k show "?k \<noteq> length xs \<and> xs ! ?k = v" by simp
qed

lemma set_insert_at: "i \<le> length xs \<Longrightarrow> set (insert_at i x xs) = insert x (set xs)"
proof -
  assume "i \<le> length xs"
  have "set (take i xs) \<union> set (drop i xs) = set xs" by (metis append_take_drop_id set_append)
  then show ?thesis by (auto simp: insert_at_def)
qed

lemma distinct_insert_at:
  "distinct xs \<Longrightarrow> x \<notin> set xs \<Longrightarrow> distinct (insert_at i x xs)"
proof -
  assume d: "distinct xs" and x: "x \<notin> set xs"
  have "distinct (take i xs @ drop i xs)" using d by simp
  then have "distinct (take i xs)" "distinct (drop i xs)" "set (take i xs) \<inter> set (drop i xs) = {}"
    by (simp_all only: distinct_append)
  moreover have "x \<notin> set (take i xs)" "x \<notin> set (drop i xs)"
    using x by (auto dest: in_set_takeD in_set_dropD)
  ultimately show ?thesis by (auto simp: insert_at_def)
qed

lemma set_erase_at:
  assumes "distinct xs" and "i < length xs"
  shows "set (erase_at i xs) = set xs - {xs ! i}"
proof -
  have xs: "xs = take i xs @ xs ! i # drop (Suc i) xs" using assms(2) by (simp add: id_take_nth_drop [symmetric])
  then have d: "distinct (take i xs @ xs ! i # drop (Suc i) xs)" using assms(1) by simp
  have "set xs = set (take i xs) \<union> {xs ! i} \<union> set (drop (Suc i) xs)"
    by (subst xs) (simp only: set_append list.set, blast)
  moreover have "xs ! i \<notin> set (take i xs)" "xs ! i \<notin> set (drop (Suc i) xs)"
    using d by (simp_all only: distinct_append distinct.simps, auto)
  ultimately show ?thesis by (auto simp: erase_at_def)
qed

lemma distinct_erase_at: "distinct xs \<Longrightarrow> distinct (erase_at i xs)"
proof -
  assume dx: "distinct xs"
  then have "distinct (take i xs @ drop i xs)" by simp
  then have "distinct (take i xs)" "set (take i xs) \<inter> set (drop i xs) = {}"
    by (simp_all only: distinct_append)
  moreover have "set (drop (Suc i) xs) \<subseteq> set (drop i xs)" by (simp add: set_drop_subset_set_drop)
  moreover have "distinct (drop (Suc i) xs)" using dx by simp
  ultimately show ?thesis by (auto simp: erase_at_def)
qed

lemma sorted_erase_at_nat: "sorted (xs :: nat list) \<Longrightarrow> sorted (erase_at i xs)"
  using sorted_erase_at [of "\<lambda>x. x" xs i] by simp

lemma sorted_insert_at_nat:
  "sorted (xs :: nat list) \<Longrightarrow> sorted (insert_at (length (takeWhile (\<lambda>p. p < v) xs)) v xs)"
  using sorted_insert_at [of "\<lambda>x. x" xs v v] by simp

lemma createSource_inv:
  assumes "current w" and "sources_inv ctx"
  shows "sources_inv (snd (createSource w ctx))"
proof -
  let ?src = "if mFreeSources ctx \<noteq> [] then last (mFreeSources ctx) else length (mAllSources ctx)"
  let ?us = "mUsedSources ctx"
  let ?k = "length (takeWhile (\<lambda>p. p < ?src) ?us)"
  have s: "sorted ?us" and d: "distinct ?us" using assms(2) by (simp_all add: sources_inv_def)
  have lb: "lower_bound ?us (\<lambda>p. p < ?src) 0 (length ?us) = ?k" using s by (rule lower_bound_ptr)
  have found: "(?k \<noteq> length ?us \<and> ?us ! ?k = ?src) \<longleftrightarrow> ?src \<in> set ?us"
    using s by (rule nth_takeWhile_found)
  have kl: "?k \<le> length ?us" by (rule length_takeWhile_le)
  have tl: "set (tl (mFreeSources ctx)) \<subseteq> set (mFreeSources ctx)"
    by (cases "mFreeSources ctx") auto
  show ?thesis
  proof (cases "?src \<in> set ?us")
    case True
    then have "?k \<noteq> length ?us \<and> ?us ! ?k = ?src" using found by blast
    then show ?thesis using assms lb tl
      by (auto simp: createSource_def Let_def sources_inv_def less_Suc_eq)
  next
    case False
    then have nf: "?k = length ?us \<or> ?us ! ?k \<noteq> ?src" using found by blast
    have s': "sorted (insert_at ?k ?src ?us)" using s by (rule sorted_insert_at_nat)
    have d': "distinct (insert_at ?k ?src ?us)" using d False by (rule distinct_insert_at)
    have st: "set (insert_at ?k ?src ?us) = insert ?src (set ?us)" using kl by (rule set_insert_at)
    show ?thesis
    proof (cases "mFreeSources ctx = []")
      case e: True
      then show ?thesis using assms nf lb s' d' st
        by (auto simp: createSource_def Let_def sources_inv_def less_Suc_eq)
    next
      case e: False
      then have "last (mFreeSources ctx) \<in> set (mFreeSources ctx)" by simp
      then show ?thesis using assms nf lb s' d' st tl e
        by (auto simp: createSource_def Let_def sources_inv_def)
    qed
  qed
qed

lemma freeSource_used:
  assumes "sources_inv ctx"
  shows "sorted (mUsedSources (freeSource p ctx)) \<and> distinct (mUsedSources (freeSource p ctx)) \<and>
         set (mUsedSources (freeSource p ctx)) = set (mUsedSources ctx) - {p}"
proof -
  let ?us = "mUsedSources ctx"
  let ?k = "length (takeWhile (\<lambda>q. q < p) ?us)"
  have s: "sorted ?us" and d: "distinct ?us" using assms by (simp_all add: sources_inv_def)
  have lb: "lower_bound ?us (\<lambda>q. q < p) 0 (length ?us) = ?k" using s by (rule lower_bound_ptr)
  have found: "(?k \<noteq> length ?us \<and> ?us ! ?k = p) \<longleftrightarrow> p \<in> set ?us"
    using s by (rule nth_takeWhile_found)
  have kl: "?k \<le> length ?us" by (rule length_takeWhile_le)
  show ?thesis
  proof (cases "p \<in> set ?us")
    case True
    then have f: "?k \<noteq> length ?us \<and> ?us ! ?k = p" using found by blast
    then have "?k < length ?us" using kl by simp
    then have "set (erase_at ?k ?us) = set ?us - {?us ! ?k}" using d by (simp add: set_erase_at)
    then show ?thesis using f lb s d
      by (simp add: freeSource_def Let_def sorted_erase_at_nat distinct_erase_at)
  next
    case False
    then have "\<not> (?k \<noteq> length ?us \<and> ?us ! ?k = p)" using found by blast
    then show ?thesis using False lb s d by (auto simp: freeSource_def Let_def)
  qed
qed

lemma freeSource_fields:
  "mAllSources (freeSource p ctx) = mAllSources ctx \<and>
   mFreeSources (freeSource p ctx) = mFreeSources ctx @ [p]"
  by (simp add: freeSource_def Let_def)

lemma freeSource_inv:
  assumes "p < length (mAllSources ctx)" and "sources_inv ctx"
  shows "sources_inv (freeSource p ctx)"
  using assms freeSource_used [OF assms(2), of p] freeSource_fields [of p ctx]
  by (auto simp: sources_inv_def)

lemma run_calls_inv:
  "current w \<Longrightarrow> calls_wf w calls ctx \<Longrightarrow> sources_inv ctx \<Longrightarrow> sources_inv (run_calls w calls ctx)"
proof (induction calls arbitrary: ctx)
  case Nil
  then show ?case by simp
next
  case (Cons c calls)
  show ?case
  proof (cases c)
    case CreateSource
    then show ?thesis using Cons by (simp add: createSource_inv)
  next
    case (FreeSource p)
    then show ?thesis using Cons by (simp add: freeSource_inv)
  qed
qed

lemma used_le_all:
  assumes "sources_inv ctx"
  shows "length (mUsedSources ctx) \<le> length (mAllSources ctx)"
proof -
  have "set (mUsedSources ctx) \<subseteq> {..<length (mAllSources ctx)}"
    using assms by (auto simp: sources_inv_def)
  then have "card (set (mUsedSources ctx)) \<le> card {..<length (mAllSources ctx)}"
    by (rule card_mono [OF finite_lessThan])
  moreover have "card (set (mUsedSources ctx)) = length (mUsedSources ctx)"
    using assms by (simp add: sources_inv_def distinct_card)
  ultimately show ?thesis by simp
qed

lemma createSource_fst:
  "current w \<Longrightarrow> fst (createSource w ctx) =
     Inr (if mFreeSources ctx \<noteq> [] then last (mFreeSources ctx) else length (mAllSources ctx))"
  by (simp add: createSource_def Let_def)

lemma createSource_all:
  "current w \<Longrightarrow> mAllSources (snd (createSource w ctx)) =
     (if mFreeSources ctx \<noteq> [] then mAllSources ctx else mAllSources ctx @ [ALSource_new])"
  by (simp add: createSource_def Let_def)

lemma used_insert:
  assumes "sorted us"
  shows "set (if lower_bound us (\<lambda>p. p < src) 0 (length us) = length us \<or>
                 us ! lower_bound us (\<lambda>p. p < src) 0 (length us) \<noteq> src
              then insert_at (lower_bound us (\<lambda>p. p < src) 0 (length us)) src us else us)
         = insert (src::nat) (set us)"
proof -
  let ?k = "length (takeWhile (\<lambda>p. p < src) us)"
  have lb: "lower_bound us (\<lambda>p. p < src) 0 (length us) = ?k"
    using assms by (rule lower_bound_ptr)
  have found: "(?k \<noteq> length us \<and> us ! ?k = src) \<longleftrightarrow> src \<in> set us"
    using assms by (rule nth_takeWhile_found)
  have st: "set (insert_at ?k src us) = insert src (set us)"
    using length_takeWhile_le by (rule set_insert_at)
  show ?thesis
  proof (cases "src \<in> set us")
    case True
    then have "\<not> (?k = length us \<or> us ! ?k \<noteq> src)" using found by blast
    then show ?thesis unfolding lb using True by (simp only: if_False insert_absorb)
  next
    case False
    then have "?k = length us \<or> us ! ?k \<noteq> src" using found by blast
    then show ?thesis unfolding lb using st by (simp only: if_True)
  qed
qed

lemma createSource_used:
  assumes "current w" and "sorted (mUsedSources ctx)"
  shows "set (mUsedSources (snd (createSource w ctx))) =
     insert (if mFreeSources ctx \<noteq> [] then last (mFreeSources ctx) else length (mAllSources ctx))
       (set (mUsedSources ctx))"
proof (cases "mFreeSources ctx = []")
  case True
  have "mUsedSources (snd (createSource w ctx)) =
     (if lower_bound (mUsedSources ctx) (\<lambda>p. p < length (mAllSources ctx)) 0 (length (mUsedSources ctx))
           = length (mUsedSources ctx) \<or>
         mUsedSources ctx ! lower_bound (mUsedSources ctx) (\<lambda>p. p < length (mAllSources ctx)) 0
           (length (mUsedSources ctx)) \<noteq> length (mAllSources ctx)
      then insert_at (lower_bound (mUsedSources ctx) (\<lambda>p. p < length (mAllSources ctx)) 0
           (length (mUsedSources ctx))) (length (mAllSources ctx)) (mUsedSources ctx)
      else mUsedSources ctx)"
    using assms(1) True by (simp add: createSource_def Let_def)
  then show ?thesis using used_insert [OF assms(2), of "length (mAllSources ctx)"] True
    by simp
next
  case False
  have "mUsedSources (snd (createSource w ctx)) =
     (if lower_bound (mUsedSources ctx) (\<lambda>p. p < last (mFreeSources ctx)) 0 (length (mUsedSources ctx))
           = length (mUsedSources ctx) \<or>
         mUsedSources ctx ! lower_bound (mUsedSources ctx) (\<lambda>p. p < last (mFreeSources ctx)) 0
           (length (mUsedSources ctx)) \<noteq> last (mFreeSources ctx)
      then insert_at (lower_bound (mUsedSources ctx) (\<lambda>p. p < last (mFreeSources ctx)) 0
           (length (mUsedSources ctx))) (last (mFreeSources ctx)) (mUsedSources ctx)
      else mUsedSources ctx)"
    using assms(1) False by (simp add: createSource_def Let_def)
  then show ?thesis using used_insert [OF assms(2), of "last (mFreeSources ctx)"] False
    by simp
qed


text \<open>
  What does hold of the pool after any sequence of createSource and freeSource calls on
  a fresh context (each freeSource given an allocated source): the used-source index
  never holds more sources than have been allocated; createSource allocates a new source
  exactly when the queue of free sources is empty and otherwise hands out the back of
  the queue without allocating; the source it returns is in the used-source index; and
  freeSource takes the source out of the used-source index and makes it the one the
  very next createSource returns.  Which entry createSource takes off the queue is not
  part of these facts; the section on recycling sources runs the code on it.
\<close>

theorem createSource_reuses_free_list:
  assumes "current w" and "calls_wf w calls (ALContext_new c)"
  shows "length (mUsedSources (run_calls w calls (ALContext_new c)))
           \<le> length (mAllSources (run_calls w calls (ALContext_new c))) \<and>
         (mFreeSources (run_calls w calls (ALContext_new c)) \<noteq> [] \<longrightarrow>
            mAllSources (snd (createSource w (run_calls w calls (ALContext_new c))))
              = mAllSources (run_calls w calls (ALContext_new c)) \<and>
            fst (createSource w (run_calls w calls (ALContext_new c)))
              = Inr (last (mFreeSources (run_calls w calls (ALContext_new c))))) \<and>
         (mFreeSources (run_calls w calls (ALContext_new c)) = [] \<longrightarrow>
            mAllSources (snd (createSource w (run_calls w calls (ALContext_new c))))
              = mAllSources (run_calls w calls (ALContext_new c)) @ [ALSource_new] \<and>
            fst (createSource w (run_calls w calls (ALContext_new c)))
              = Inr (length (mAllSources (run_calls w calls (ALContext_new c))))) \<and>
         (\<exists>src. fst (createSource w (run_calls w calls (ALContext_new c))) = Inr src \<and>
            src \<in> set (mUsedSources (snd (createSource w (run_calls w calls (ALContext_new c)))))) \<and>
         (p < length (mAllSources (run_calls w calls (ALContext_new c))) \<longrightarrow>
            p \<notin> set (mUsedSources (freeSource p (run_calls w calls (ALContext_new c)))) \<and>
            fst (createSource w (freeSource p (run_calls w calls (ALContext_new c)))) = Inr p \<and>
            mAllSources (snd (createSource w (freeSource p (run_calls w calls (ALContext_new c)))))
              = mAllSources (run_calls w calls (ALContext_new c)))"
proof -
  define ctx where "ctx = run_calls w calls (ALContext_new c)"
  have "sources_inv (ALContext_new c)" by (simp add: sources_inv_def ALContext_new_def)
  then have inv: "sources_inv ctx" unfolding ctx_def using assms by (rule run_calls_inv [rotated 2])
  have s: "sorted (mUsedSources ctx)" using inv by (simp add: sources_inv_def)
  have a: "length (mUsedSources ctx) \<le> length (mAllSources ctx)" using inv by (rule used_le_all)
  note f = createSource_fst [OF assms(1), of ctx]
  note al = createSource_all [OF assms(1), of ctx]
  note us = createSource_used [OF assms(1) s]
  have b: "mFreeSources ctx \<noteq> [] \<longrightarrow>
           mAllSources (snd (createSource w ctx)) = mAllSources ctx \<and>
           fst (createSource w ctx) = Inr (last (mFreeSources ctx))"
    using f al by simp
  have c: "mFreeSources ctx = [] \<longrightarrow>
           mAllSources (snd (createSource w ctx)) = mAllSources ctx @ [ALSource_new] \<and>
           fst (createSource w ctx) = Inr (length (mAllSources ctx))"
    using f al by simp
  have d: "\<exists>src. fst (createSource w ctx) = Inr src \<and> src \<in> set (mUsedSources (snd (createSource w ctx)))"
    using f us by simp
  have ff: "mFreeSources (freeSource p ctx) = mFreeSources ctx @ [p]"
       "mAllSources (freeSource p ctx) = mAllSources ctx"
    using freeSource_fields [of p ctx] by simp_all
  have e: "p \<notin> set (mUsedSources (freeSource p ctx)) \<and>
            fst (createSource w (freeSource p ctx)) = Inr p \<and>
            mAllSources (snd (createSource w (freeSource p ctx))) = mAllSources ctx"
    using freeSource_used [OF inv, of p] ff
      createSource_fst [OF assms(1), of "freeSource p ctx"]
      createSource_all [OF assms(1), of "freeSource p ctx"]
    by simp
  show ?thesis using a b c d e unfolding ctx_def by blast
qed

theorem createSource_reuses_free_list_witness:
  "current demo_world \<and>
   calls_wf demo_world [CreateSource, CreateSource, FreeSource 0, FreeSource 1] (ALContext_new None) \<and>
   mFreeSources (run_calls demo_world [CreateSource, CreateSource, FreeSource 0, FreeSource 1]
      (ALContext_new None)) = [0, 1] \<and>
   mUsedSources (run_calls demo_world [CreateSource, CreateSource, FreeSource 0, FreeSource 1]
      (ALContext_new None)) = [] \<and>
   length (mAllSources (run_calls demo_world [CreateSource, CreateSource, FreeSource 0, FreeSource 1]
      (ALContext_new None))) = 2 \<and>
   fst (createSource demo_world (run_calls demo_world
      [CreateSource, CreateSource, FreeSource 0, FreeSource 1] (ALContext_new None))) = Inr 1"
proof -
  have cur: "current demo_world" by (simp add: demo_world_def)
  have c1: "createSource demo_world (ALContext_new None) =
     (Inr 0, (ALContext_new None)\<lparr>mAllSources := [ALSource_new], mUsedSources := [0]\<rparr>)"
    by (simp add: demo_world_def ALContext_new_def createSource_def Let_def
        lower_bound.simps insert_at_def)
  have c2: "createSource demo_world
       ((ALContext_new None)\<lparr>mAllSources := [ALSource_new], mUsedSources := [0]\<rparr>) =
     (Inr 1, (ALContext_new None)\<lparr>mAllSources := [ALSource_new, ALSource_new],
                 mUsedSources := [0, 1]\<rparr>)"
    by (simp add: demo_world_def ALContext_new_def createSource_def Let_def
        lower_bound.simps insert_at_def)
  have f1: "freeSource 0 ((ALContext_new None)\<lparr>mAllSources := [ALSource_new, ALSource_new],
                 mUsedSources := [0, 1]\<rparr>) =
     (ALContext_new None)\<lparr>mAllSources := [ALSource_new, ALSource_new],
                 mUsedSources := [1], mFreeSources := [0]\<rparr>"
    by (simp add: ALContext_new_def freeSource_def Let_def lower_bound.simps erase_at_def)
  have f2: "freeSource 1 ((ALContext_new None)\<lparr>mAllSources := [ALSource_new, ALSource_new],
                 mUsedSources := [1], mFreeSources := [0]\<rparr>) =
     (ALContext_new None)\<lparr>mAllSources := [ALSource_new, ALSource_new],
                 mUsedSources := [], mFreeSources := [0, 1]\<rparr>"
    by (simp add: ALContext_new_def freeSource_def Let_def lower_bound.simps erase_at_def)
  have run: "run_calls demo_world [CreateSource, CreateSource, FreeSource 0, FreeSource 1]
      (ALContext_new None) = (ALContext_new None)\<lparr>mAllSources := [ALSource_new, ALSource_new],
                 mUsedSources := [], mFreeSources := [0, 1]\<rparr>"
    by (simp only: run_calls.simps c1 c2 f1 f2 snd_conv)
  have wf: "calls_wf demo_world [CreateSource, CreateSource, FreeSource 0, FreeSource 1]
      (ALContext_new None)"
    by (simp only: calls_wf.simps c1 c2 f1 f2 snd_conv) (simp add: ALContext_new_def)
  note t = createSource_reuses_free_list [OF cur wf, of 1, unfolded run]
  show ?thesis unfolding run using t cur wf by (simp add: ALContext_new_def)
qed

section \<open>Decoder resolution\<close>

lemma GetDecoder_range_append:
  "GetDecoder_range name strm (xs @ ys) =
     (case GetDecoder_range name strm xs of
        Inl e \<Rightarrow> Inl e
      | Inr (Some d, strm') \<Rightarrow> Inr (Some d, strm')
      | Inr (None, strm') \<Rightarrow> GetDecoder_range name strm' ys)"
proof (induction xs arbitrary: strm)
  case Nil
  then show ?case by simp
next
  case (Cons x xs)
  show ?case
  proof (cases "snd x strm")
    case (Pair dec strm')
    show ?thesis
    proof (cases dec)
      case (Some d)
      then show ?thesis using Pair by simp
    next
      case None
      show ?thesis
      proof (cases strm')
        case n: None
        then show ?thesis using Pair None by simp
      next
        case (Some f)
        then show ?thesis using Pair None Cons.IH [of "Some (seekg 0 (clear f))"]
          by (simp add: Let_def)
      qed
    qed
  qed
qed

lemma GetDecoder_concat:
  "GetDecoder sd sdef name strm =
     (case GetDecoder_range name strm (sd @ sdef) of
        Inl e \<Rightarrow> Inl e
      | Inr (Some d, strm') \<Rightarrow> Inr d
      | Inr (None, strm') \<Rightarrow> Inl (RuntimeError (''No decoder for '' @ name)))"
proof (cases "GetDecoder_range name strm sd")
  case (Inl e)
  then show ?thesis by (simp add: GetDecoder_def GetDecoder_range_append)
next
  case (Inr r)
  obtain dec strm' where r: "r = (dec, strm')" by (cases r)
  show ?thesis
  proof (cases dec)
    case None
    then show ?thesis using Inr r by (simp add: GetDecoder_def GetDecoder_range_append)
  next
    case (Some d)
    then show ?thesis using Inr r by (simp add: GetDecoder_def GetDecoder_range_append)
  qed
qed

lemma rewind_seekable:
  "seekg 0 (clear s) = (if seekable s then s\<lparr>failbit := False, gpos := 0\<rparr> else s\<lparr>failbit := True\<rparr>)"
  by (simp add: seekg_def clear_def)

lemma RegisterDecoder_sorted:
  "RegisterDecoder name f ds = Inr ds' \<Longrightarrow> sorted (map fst ds) \<Longrightarrow>
     sorted (map fst ds') \<and> set ds' = insert (name, f) (set ds) \<and> length ds' = Suc (length ds)"
  by (auto simp: RegisterDecoder_def sorted_insort_key set_insort_key split: if_splits)

lemma register_all_sorted:
  "register_all rs ds = Inr ds' \<Longrightarrow> sorted (map fst ds) \<Longrightarrow>
     sorted (map fst ds') \<and> set ds' = set rs \<union> set ds"
proof (induction rs arbitrary: ds)
  case Nil
  then show ?case by simp
next
  case (Cons r rs)
  from Cons.prems(1) obtain ds1 where r: "RegisterDecoder (fst r) (snd r) ds = Inr ds1"
    and rest: "register_all rs ds1 = Inr ds'"
    by (auto split: sum.splits)
  from RegisterDecoder_sorted [OF r Cons.prems(2)]
  have s1: "sorted (map fst ds1)" and e1: "set ds1 = insert r (set ds)" by simp_all
  from Cons.IH [OF rest s1] show ?case using e1 by auto
qed

lemma sDefaultDecoders_names:
  "map fst (sDefaultDecoders wave avail) =
     ''_alure_int_wave'' # filter (\<lambda>n. avail n \<noteq> None) sDefaultDecoderNames"
proof -
  have "map fst (List.map_filter (\<lambda>n. map_option (Pair n) (avail n)) ns) = filter (\<lambda>n. avail n \<noteq> None) ns" for ns
    by (induction ns) (auto simp: List.map_filter_simps)
  then show ?thesis by (simp add: sDefaultDecoders_def)
qed

lemma map_fst_insort_key:
  "map fst (insort_key fst x ds) = insort (fst x) (map fst ds)"
  by (induction ds) auto

lemma RegisterDecoder_distinct:
  assumes "RegisterDecoder name f ds = Inr ds'" and "distinct (map fst ds)"
  shows "distinct (map fst ds')"
proof -
  have n: "map_of ds name = None" and d: "ds' = insort_key fst (name, f) ds"
    using assms(1) by (auto simp: RegisterDecoder_def split: if_splits)
  have "name \<notin> set (map fst ds)" using n by (simp add: map_of_eq_None_iff)
  then show ?thesis using assms(2) unfolding d map_fst_insort_key
    by (simp add: distinct_insort)
qed

lemma register_all_distinct:
  "register_all rs ds = Inr ds' \<Longrightarrow> distinct (map fst ds) \<Longrightarrow> distinct (map fst ds')"
proof (induction rs arbitrary: ds)
  case Nil
  then show ?case by simp
next
  case (Cons r rs)
  from Cons.prems(1) obtain ds1 where r: "RegisterDecoder (fst r) (snd r) ds = Inr ds1"
    and rest: "register_all rs ds1 = Inr ds'"
    by (auto split: sum.splits)
  from Cons.IH [OF rest RegisterDecoder_distinct [OF r Cons.prems(2)]] show ?case .
qed

text \<open>
  Claim C5, amended.  Decoder resolution tries the registered factories in ascending
  order of the names they were registered under, which is the order a \<^verbatim>\<open>std::map\<close> is
  walked in and not the order of registration, and then the built-in factories in the
  order of their table (wave first, then vorbis, flac, opus, sndfile and mpg123 as far
  as compiled in).  A factory that accepts ends the search.  After a factory that
  rejects, the stream is cleared and sought to offset 0 before the next factory is
  tried; when the factory has taken the stream away or the seek fails, the runtime
  error "Failed to rewind ..." is raised.  So when the first two of three registered
  factories (in name order) reject and the third accepts the rewound stream, the
  decoder is the third factory's, after two rewinds.
\<close>

theorem GetDecoder_name_order_and_rewind:
  "(register_all rs [] = Inr sd \<longrightarrow>
      sorted (map fst sd) \<and> distinct (map fst sd) \<and> set sd = set rs) \<and>
   map fst (sDefaultDecoders wave avail) =
     ''_alure_int_wave'' # filter (\<lambda>n. avail n \<noteq> None) sDefaultDecoderNames \<and>
   GetDecoder sd sdef name strm =
     (case GetDecoder_range name strm (sd @ sdef) of
        Inl e \<Rightarrow> Inl e
      | Inr (Some d, strm') \<Rightarrow> Inr d
      | Inr (None, strm') \<Rightarrow> Inl (RuntimeError (''No decoder for '' @ name))) \<and>
   (snd start strm = (Some d, strm') \<longrightarrow>
      GetDecoder_range name strm (start # rest) = Inr (Some d, strm')) \<and>
   (snd start strm = (None, Some f) \<and> seekable f \<longrightarrow>
      GetDecoder_range name strm (start # rest) =
        GetDecoder_range name (Some (f\<lparr>failbit := False, gpos := 0\<rparr>)) rest) \<and>
   (snd start strm = (None, Some f) \<and> \<not> seekable f \<longrightarrow>
      GetDecoder_range name strm (start # rest) = Inl (rewind_error name)) \<and>
   (snd start strm = (None, None) \<longrightarrow>
      GetDecoder_range name strm (start # rest) = Inl (rewind_error name)) \<and>
   (f1 strm = (None, Some s1) \<and> seekable s1 \<and>
    f2 (Some (s1\<lparr>failbit := False, gpos := 0\<rparr>)) = (None, Some s2) \<and> seekable s2 \<and>
    f3 (Some (s2\<lparr>failbit := False, gpos := 0\<rparr>)) = (Some d3, strm3) \<longrightarrow>
      GetDecoder [(k1, f1), (k2, f2), (k3, f3)] sdef name strm = Inr d3)"
proof -
  have a: "register_all rs [] = Inr sd \<longrightarrow>
      sorted (map fst sd) \<and> distinct (map fst sd) \<and> set sd = set rs"
    using register_all_sorted [of rs "[]" sd] register_all_distinct [of rs "[]" sd] by simp
  have b: "snd start strm = (Some d, strm') \<longrightarrow>
      GetDecoder_range name strm (start # rest) = Inr (Some d, strm')"
    by simp
  have c: "snd start strm = (None, Some f) \<and> seekable f \<longrightarrow>
      GetDecoder_range name strm (start # rest) =
        GetDecoder_range name (Some (f\<lparr>failbit := False, gpos := 0\<rparr>)) rest"
    by (simp add: rewind_seekable)
  have d: "snd start strm = (None, Some f) \<and> \<not> seekable f \<longrightarrow>
      GetDecoder_range name strm (start # rest) = Inl (rewind_error name)"
    by (simp add: rewind_seekable)
  have e: "snd start strm = (None, None) \<longrightarrow>
      GetDecoder_range name strm (start # rest) = Inl (rewind_error name)"
    by simp
  have g: "f1 strm = (None, Some s1) \<and> seekable s1 \<and>
    f2 (Some (s1\<lparr>failbit := False, gpos := 0\<rparr>)) = (None, Some s2) \<and> seekable s2 \<and>
    f3 (Some (s2\<lparr>failbit := False, gpos := 0\<rparr>)) = (Some d3, strm3) \<longrightarrow>
      GetDecoder [(k1, f1), (k2, f2), (k3, f3)] sdef name strm = Inr d3"
    by (simp add: GetDecoder_def rewind_seekable)
  show ?thesis
    using a b c d e g sDefaultDecoders_names [of wave avail] GetDecoder_concat [of sd sdef name strm]
    by blast
qed

theorem GetDecoder_name_order_and_rewind_witness:
  "register_all [(''c'', accepting demo_decoder), (''a'', rejecting), (''b'', rejecting)] [] =
     Inr [(''a'', rejecting), (''b'', rejecting), (''c'', accepting demo_decoder)] \<and>
   rejecting (Some demo_stream) = (None, Some (demo_stream\<lparr>gpos := 4\<rparr>)) \<and>
   seekable (demo_stream\<lparr>gpos := 4\<rparr>) \<and>
   (demo_stream\<lparr>gpos := 4\<rparr>)\<lparr>failbit := False, gpos := 0\<rparr> = demo_stream \<and>
   accepting demo_decoder (Some demo_stream) = (Some demo_decoder, Some demo_stream) \<and>
   GetDecoder [(''a'', rejecting), (''b'', rejecting), (''c'', accepting demo_decoder)]
     (sDefaultDecoders rejecting (\<lambda>n. None)) ''x.wav'' (Some demo_stream) = Inr demo_decoder"
proof -
  have reg: "register_all [(''c'', accepting demo_decoder), (''a'', rejecting), (''b'', rejecting)] [] =
     Inr [(''a'', rejecting), (''b'', rejecting), (''c'', accepting demo_decoder)]"
    by (simp add: RegisterDecoder_def)
  have r1: "rejecting (Some demo_stream) = (None, Some (demo_stream\<lparr>gpos := 4\<rparr>))"
    by (simp add: rejecting_def demo_stream_def)
  have sk: "seekable (demo_stream\<lparr>gpos := 4\<rparr>)" by (simp add: demo_stream_def)
  have rw: "(demo_stream\<lparr>gpos := 4\<rparr>)\<lparr>failbit := False, gpos := 0\<rparr> = demo_stream"
    by (simp add: demo_stream_def)
  have r2: "rejecting (Some ((demo_stream\<lparr>gpos := 4\<rparr>)\<lparr>failbit := False, gpos := 0\<rparr>)) =
     (None, Some (demo_stream\<lparr>gpos := 4\<rparr>))"
    unfolding rw by (rule r1)
  have a3: "accepting demo_decoder (Some ((demo_stream\<lparr>gpos := 4\<rparr>)\<lparr>failbit := False, gpos := 0\<rparr>)) =
     (Some demo_decoder, Some demo_stream)"
    unfolding rw by (simp add: accepting_def)
  have a3': "accepting demo_decoder (Some demo_stream) = (Some demo_decoder, Some demo_stream)"
    by (simp add: accepting_def)
  note t = GetDecoder_name_order_and_rewind
    [where ?f1.0 = rejecting and ?f2.0 = rejecting and ?f3.0 = "accepting demo_decoder"
       and strm = "Some demo_stream" and ?s1.0 = "demo_stream\<lparr>gpos := 4\<rparr>"
       and ?s2.0 = "demo_stream\<lparr>gpos := 4\<rparr>" and ?d3.0 = demo_decoder
       and ?strm3.0 = "Some demo_stream" and ?k1.0 = "''a''" and ?k2.0 = "''b''" and ?k3.0 = "''c''"
       and sdef = "sDefaultDecoders rejecting (\<lambda>n. None)" and name = "''x.wav''"]
  have "GetDecoder [(''a'', rejecting), (''b'', rejecting), (''c'', accepting demo_decoder)]
     (sDefaultDecoders rejecting (\<lambda>n. None)) ''x.wav'' (Some demo_stream) = Inr demo_decoder"
    using t r1 sk r2 a3 by blast
  then show ?thesis using reg r1 sk rw a3' by simp
qed

text \<open>
  Claim C5 as stated fails: a factory registered first under the name "b" accepts every
  stream, yet the decoder comes from the factory registered after it under the name "a".
\<close>

theorem registration_order_counterexample:
  "register_all [(''b'', accepting demo_decoder),
                 (''a'', accepting (demo_decoder\<lparr>getFrequency := 8000\<rparr>))] [] =
     Inr [(''a'', accepting (demo_decoder\<lparr>getFrequency := 8000\<rparr>)),
          (''b'', accepting demo_decoder)] \<and>
   GetDecoder [(''a'', accepting (demo_decoder\<lparr>getFrequency := 8000\<rparr>)),
               (''b'', accepting demo_decoder)]
     (sDefaultDecoders rejecting (\<lambda>n. None)) ''x.wav'' (Some demo_stream) =
     Inr (demo_decoder\<lparr>getFrequency := 8000\<rparr>) \<and>
   demo_decoder\<lparr>getFrequency := 8000\<rparr> \<noteq> demo_decoder"
  by (simp add: RegisterDecoder_def GetDecoder_def accepting_def demo_decoder_def)

section \<open>Voice allocation\<close>

lemma scan_lowest_acc:
  "scan_lowest srcs us acc = r \<Longrightarrow>
     (r = None \<longrightarrow> acc = None \<and> (\<forall>u\<in>set us. sId (srcs ! u) = 0)) \<and>
     (\<forall>l. r = Some l \<longrightarrow>
        (acc = Some l \<and> (\<forall>u\<in>set us. sId (srcs ! u) \<noteq> 0 \<longrightarrow> sPriority (srcs ! l) \<le> sPriority (srcs ! u))) \<or>
        (\<exists>pre post. us = pre @ l # post \<and> sId (srcs ! l) \<noteq> 0 \<and>
           (\<forall>u\<in>set pre. sId (srcs ! u) \<noteq> 0 \<longrightarrow> sPriority (srcs ! l) < sPriority (srcs ! u)) \<and>
           (\<forall>u\<in>set post. sId (srcs ! u) \<noteq> 0 \<longrightarrow> sPriority (srcs ! l) \<le> sPriority (srcs ! u)) \<and>
           (\<forall>a. acc = Some a \<longrightarrow> sPriority (srcs ! l) < sPriority (srcs ! a))))"
proof (induction us arbitrary: acc)
  case Nil
  then show ?case by auto
next
  case (Cons u us)
  let ?V = "\<lambda>s. sId (srcs ! s) \<noteq> 0"
  let ?P = "\<lambda>s. sPriority (srcs ! s)"
  let ?take = "?V u \<and> (case acc of None \<Rightarrow> True | Some l \<Rightarrow> ?P u < ?P l)"
  let ?acc' = "if ?take then Some u else acc"
  have r: "scan_lowest srcs us ?acc' = r" using Cons.prems by simp
  note IH = Cons.IH [OF r]
  show ?case
  proof (cases ?take)
    case True
    then have acc': "?acc' = Some u" by (rule if_P)
    have Vu: "?V u" using True by simp
    have lt_acc: "\<forall>a. acc = Some a \<longrightarrow> ?P u < ?P a" using True by (auto split: option.splits)
    from IH acc' have rn: "r \<noteq> None" by auto
    then obtain l where l: "r = Some l" by auto
    from IH l acc' consider
      (keep) "l = u" "\<forall>v\<in>set us. ?V v \<longrightarrow> ?P l \<le> ?P v"
      | (later) pre post where "us = pre @ l # post" "?V l"
          "\<forall>v\<in>set pre. ?V v \<longrightarrow> ?P l < ?P v" "\<forall>v\<in>set post. ?V v \<longrightarrow> ?P l \<le> ?P v" "?P l < ?P u"
      by auto
    then have "\<exists>pre post. u # us = pre @ l # post \<and> ?V l \<and>
           (\<forall>v\<in>set pre. ?V v \<longrightarrow> ?P l < ?P v) \<and>
           (\<forall>v\<in>set post. ?V v \<longrightarrow> ?P l \<le> ?P v) \<and>
           (\<forall>a. acc = Some a \<longrightarrow> ?P l < ?P a)"
    proof cases
      case keep
      then have "u # us = [] @ l # us" by simp
      then show ?thesis using keep Vu lt_acc by (metis empty_iff list.set(1))
    next
      case later
      have "u # us = (u # pre) @ l # post" using later(1) by simp
      moreover have "\<forall>v\<in>set (u # pre). ?V v \<longrightarrow> ?P l < ?P v" using later(3,5) by simp
      moreover have "\<forall>a. acc = Some a \<longrightarrow> ?P l < ?P a" using lt_acc later(5) by (auto intro: less_trans)
      ultimately show ?thesis using later(2,4) by blast
    qed
    then show ?thesis using l by simp
  next
    case False
    then have acc': "?acc' = acc" by (rule if_not_P)
    have nu: "acc = None \<longrightarrow> \<not> ?V u" using False by auto
    have ge: "\<forall>a. acc = Some a \<longrightarrow> ?V u \<longrightarrow> ?P a \<le> ?P u"
      using False by (auto simp: not_less)
    show ?thesis
    proof (cases r)
      case None
      then show ?thesis using IH acc' nu by auto
    next
      case (Some l)
      from IH Some acc' consider
        (keep) "acc = Some l" "\<forall>v\<in>set us. ?V v \<longrightarrow> ?P l \<le> ?P v"
        | (later) pre post where "us = pre @ l # post" "?V l"
            "\<forall>v\<in>set pre. ?V v \<longrightarrow> ?P l < ?P v" "\<forall>v\<in>set post. ?V v \<longrightarrow> ?P l \<le> ?P v"
            "\<forall>a. acc = Some a \<longrightarrow> ?P l < ?P a"
        by auto
      then show ?thesis
      proof cases
        case keep
        then have "\<forall>v\<in>set (u # us). ?V v \<longrightarrow> ?P l \<le> ?P v" using ge by simp
        then show ?thesis using Some keep(1) by blast
      next
        case later
        have "?V u \<longrightarrow> ?P l < ?P u"
        proof (cases acc)
          case None
          then show ?thesis using nu by simp
        next
          case (Some a)
          then show ?thesis using ge later(5) by (auto intro: less_le_trans)
        qed
        then have "\<forall>v\<in>set (u # pre). ?V v \<longrightarrow> ?P l < ?P v" using later(3) by simp
        moreover have "u # us = (u # pre) @ l # post" using later(1) by simp
        ultimately have "\<exists>pre post. u # us = pre @ l # post \<and> ?V l \<and>
           (\<forall>v\<in>set pre. ?V v \<longrightarrow> ?P l < ?P v) \<and>
           (\<forall>v\<in>set post. ?V v \<longrightarrow> ?P l \<le> ?P v) \<and>
           (\<forall>a. acc = Some a \<longrightarrow> ?P l < ?P a)"
          using later(2,4,5) by blast
        then show ?thesis using Some by simp
      qed
    qed
  qed
qed

lemma scan_lowest_None:
  "scan_lowest srcs us None = None \<longleftrightarrow> (\<forall>u\<in>set us. sId (srcs ! u) = 0)"
proof
  assume "scan_lowest srcs us None = None"
  then show "\<forall>u\<in>set us. sId (srcs ! u) = 0" using scan_lowest_acc [of srcs us None None] by simp
next
  assume a: "\<forall>u\<in>set us. sId (srcs ! u) = 0"
  show "scan_lowest srcs us None = None"
  proof (rule ccontr)
    assume "scan_lowest srcs us None \<noteq> None"
    then obtain l where l: "scan_lowest srcs us None = Some l" by auto
    from scan_lowest_acc [OF l] obtain pre post where "us = pre @ l # post" "sId (srcs ! l) \<noteq> 0"
      by auto
    then show False using a by auto
  qed
qed

lemma scan_lowest_Some:
  assumes "scan_lowest srcs us None = Some l"
  shows "\<exists>pre post. us = pre @ l # post \<and> sId (srcs ! l) \<noteq> 0 \<and>
           (\<forall>u\<in>set pre. sId (srcs ! u) \<noteq> 0 \<longrightarrow> sPriority (srcs ! l) < sPriority (srcs ! u)) \<and>
           (\<forall>u\<in>set post. sId (srcs ! u) \<noteq> 0 \<longrightarrow> sPriority (srcs ! l) \<le> sPriority (srcs ! u))"
  using scan_lowest_acc [OF assms] by auto

text \<open>
  Claim C2.  A request \<^verbatim>\<open>getSourceId(maxprio)\<close> on the current context, with no free voice
  on the stack and \<^verbatim>\<open>alGenSources\<close> failing.  The scan yields no source exactly when no used
  source holds a voice, and otherwise the first source, in scan order, among the
  voice-holding sources of lowest priority: every voice-holding source before it has a
  strictly higher priority, every one after it a priority at least as high.  That source
  is stopped, and \<^verbatim>\<open>sourceStopped(lowest, true)\<close> is sent to the message handler of the
  context when one is installed, if and only if its priority is strictly lower than
  \<open>maxprio\<close>; otherwise nothing is stopped, nothing is sent and the call fails with "No
  available sources" (ResourceExhausted).  Whenever the stack is empty after this step
  the call fails with that error; in particular it does when every voice-holding source
  has priority \<open>maxprio\<close>.  With the stop of a source as the specification describes it
  (the voice goes back to the stack), the request gets the voice of the stopped source.
\<close>

theorem getSourceId_evicts_lowest:
  assumes "current w" and "mSourceIds ctx = []" and "alGenSources w = None"
  shows
   "(scan_lowest (mAllSources ctx) (mUsedSources ctx) None = None \<longleftrightarrow>
       (\<forall>u\<in>set (mUsedSources ctx). sId (mAllSources ctx ! u) = 0)) \<and>
    (scan_lowest (mAllSources ctx) (mUsedSources ctx) None = Some l \<longrightarrow>
       (\<exists>pre post. mUsedSources ctx = pre @ l # post \<and> sId (mAllSources ctx ! l) \<noteq> 0 \<and>
          (\<forall>u\<in>set pre. sId (mAllSources ctx ! u) \<noteq> 0 \<longrightarrow>
             sPriority (mAllSources ctx ! l) < sPriority (mAllSources ctx ! u)) \<and>
          (\<forall>u\<in>set post. sId (mAllSources ctx ! u) \<noteq> 0 \<longrightarrow>
             sPriority (mAllSources ctx ! l) \<le> sPriority (mAllSources ctx ! u)))) \<and>
    (scan_lowest (mAllSources ctx) (mUsedSources ctx) None = Some l \<and>
     sPriority (mAllSources ctx ! l) < maxprio \<longrightarrow>
       getSourceId w maxprio ctx =
         take_source_id
           (if mMessage (makeStopped w l (ctx\<lparr>trace := trace ctx @ [AlGenSources None]\<rparr>)) \<noteq> None
            then (makeStopped w l (ctx\<lparr>trace := trace ctx @ [AlGenSources None]\<rparr>))
                   \<lparr>trace := trace (makeStopped w l (ctx\<lparr>trace := trace ctx @ [AlGenSources None]\<rparr>))
                              @ [SourceStopped l True]\<rparr>
            else makeStopped w l (ctx\<lparr>trace := trace ctx @ [AlGenSources None]\<rparr>))) \<and>
    (scan_lowest (mAllSources ctx) (mUsedSources ctx) None = None \<or>
     (scan_lowest (mAllSources ctx) (mUsedSources ctx) None = Some l \<and>
      \<not> sPriority (mAllSources ctx ! l) < maxprio) \<longrightarrow>
       getSourceId w maxprio ctx =
         (Inl (RuntimeError ''No available sources''),
          ctx\<lparr>trace := trace ctx @ [AlGenSources None]\<rparr>)) \<and>
    ((\<forall>u\<in>set (mUsedSources ctx). sId (mAllSources ctx ! u) \<noteq> 0 \<longrightarrow>
         sPriority (mAllSources ctx ! u) = maxprio) \<longrightarrow>
       getSourceId w maxprio ctx =
         (Inl (RuntimeError ''No available sources''),
          ctx\<lparr>trace := trace ctx @ [AlGenSources None]\<rparr>)) \<and>
    (mSourceIds c = [] \<longrightarrow> take_source_id c = (Inl (RuntimeError ''No available sources''), c)) \<and>
    (makeStopped w = makeStopped_spec \<and>
     scan_lowest (mAllSources ctx) (mUsedSources ctx) None = Some l \<and>
     sPriority (mAllSources ctx ! l) < maxprio \<longrightarrow>
       fst (getSourceId w maxprio ctx) = Inr (sId (mAllSources ctx ! l)))"
proof -
  let ?scan = "scan_lowest (mAllSources ctx) (mUsedSources ctx) None"
  let ?ctx1 = "ctx\<lparr>trace := trace ctx @ [AlGenSources None]\<rparr>"
  let ?fail = "(Inl (RuntimeError ''No available sources''), ?ctx1)"
  have tk: "take_source_id ?ctx1 = ?fail" using assms(2) by (simp add: take_source_id_def)
  have a: "?scan = None \<longleftrightarrow> (\<forall>u\<in>set (mUsedSources ctx). sId (mAllSources ctx ! u) = 0)"
    by (rule scan_lowest_None)
  have b: "?scan = Some l \<longrightarrow>
       (\<exists>pre post. mUsedSources ctx = pre @ l # post \<and> sId (mAllSources ctx ! l) \<noteq> 0 \<and>
          (\<forall>u\<in>set pre. sId (mAllSources ctx ! u) \<noteq> 0 \<longrightarrow>
             sPriority (mAllSources ctx ! l) < sPriority (mAllSources ctx ! u)) \<and>
          (\<forall>u\<in>set post. sId (mAllSources ctx ! u) \<noteq> 0 \<longrightarrow>
             sPriority (mAllSources ctx ! l) \<le> sPriority (mAllSources ctx ! u)))"
    using scan_lowest_Some [of "mAllSources ctx" "mUsedSources ctx" l] by blast
  have c: "?scan = Some l \<and> sPriority (mAllSources ctx ! l) < maxprio \<longrightarrow>
       getSourceId w maxprio ctx =
         take_source_id
           (if mMessage (makeStopped w l ?ctx1) \<noteq> None
            then (makeStopped w l ?ctx1)
                   \<lparr>trace := trace (makeStopped w l ?ctx1) @ [SourceStopped l True]\<rparr>
            else makeStopped w l ?ctx1)"
    using assms by (simp add: getSourceId_def Let_def)
  have d1: "?scan = None \<longrightarrow> getSourceId w maxprio ctx = ?fail"
    using assms tk by (simp add: getSourceId_def Let_def)
  have d2: "?scan = Some l \<and> \<not> sPriority (mAllSources ctx ! l) < maxprio \<longrightarrow>
       getSourceId w maxprio ctx = ?fail"
    using assms tk by (simp add: getSourceId_def Let_def)
  have e: "(\<forall>u\<in>set (mUsedSources ctx). sId (mAllSources ctx ! u) \<noteq> 0 \<longrightarrow>
         sPriority (mAllSources ctx ! u) = maxprio) \<longrightarrow> getSourceId w maxprio ctx = ?fail"
  proof
    assume eq: "\<forall>u\<in>set (mUsedSources ctx). sId (mAllSources ctx ! u) \<noteq> 0 \<longrightarrow>
         sPriority (mAllSources ctx ! u) = maxprio"
    show "getSourceId w maxprio ctx = ?fail"
    proof (cases ?scan)
      case None
      then show ?thesis using d1 by simp
    next
      case (Some m)
      from scan_lowest_Some [OF Some] obtain pre post where
        "mUsedSources ctx = pre @ m # post" "sId (mAllSources ctx ! m) \<noteq> 0" by blast
      then have "sPriority (mAllSources ctx ! m) = maxprio" using eq by simp
      then show ?thesis using assms tk Some by (simp add: getSourceId_def Let_def)
    qed
  qed
  have f: "mSourceIds c = [] \<longrightarrow> take_source_id c = (Inl (RuntimeError ''No available sources''), c)"
    by (simp add: take_source_id_def)
  have g: "makeStopped w = makeStopped_spec \<and> ?scan = Some l \<and>
     sPriority (mAllSources ctx ! l) < maxprio \<longrightarrow>
       fst (getSourceId w maxprio ctx) = Inr (sId (mAllSources ctx ! l))"
    using assms by (simp add: getSourceId_def Let_def makeStopped_spec_def take_source_id_def)
  show ?thesis using a b c d1 d2 e f g by blast
qed

theorem getSourceId_evicts_lowest_witness:
  "current demo_world \<and> mSourceIds demo_pool = [] \<and> alGenSources demo_world = None \<and>
   scan_lowest (mAllSources demo_pool) (mUsedSources demo_pool) None = Some 1 \<and>
   sPriority (mAllSources demo_pool ! 1) < 3 \<and>
   fst (getSourceId demo_world 3 demo_pool) = Inr 12 \<and>
   trace (snd (getSourceId demo_world 3 demo_pool)) = [AlGenSources None, SourceStopped 1 True] \<and>
   getSourceId demo_world 1 demo_pool =
     (Inl (RuntimeError ''No available sources''), demo_pool\<lparr>trace := [AlGenSources None]\<rparr>)"
proof -
  have cur: "current demo_world" and gen: "alGenSources demo_world = None"
    and ms: "makeStopped demo_world = makeStopped_spec"
    by (simp_all add: demo_world_def)
  have ids: "mSourceIds demo_pool = []" by (simp add: demo_pool_def ALContext_new_def)
  have scan: "scan_lowest (mAllSources demo_pool) (mUsedSources demo_pool) None = Some 1"
    by (simp add: demo_pool_def ALContext_new_def)
  have plt: "sPriority (mAllSources demo_pool ! 1) < 3"
    and nlt: "\<not> sPriority (mAllSources demo_pool ! 1) < 1"
    and v: "sId (mAllSources demo_pool ! 1) = 12"
    by (simp_all add: demo_pool_def ALContext_new_def)
  note t3 = getSourceId_evicts_lowest [OF cur ids gen, where l = 1 and maxprio = 3]
  note t1 = getSourceId_evicts_lowest [OF cur ids gen, where l = 1 and maxprio = 1]
  have "fst (getSourceId demo_world 3 demo_pool) = Inr (sId (mAllSources demo_pool ! 1))"
    using t3 ms scan plt by blast
  then have r3: "fst (getSourceId demo_world 3 demo_pool) = Inr 12" by (simp only: v)
  have tr3: "trace (snd (getSourceId demo_world 3 demo_pool)) =
      [AlGenSources None, SourceStopped 1 True]"
    by (simp add: getSourceId_def demo_world_def demo_pool_def ALContext_new_def Let_def
        makeStopped_spec_def take_source_id_def)
  have "getSourceId demo_world 1 demo_pool =
     (Inl (RuntimeError ''No available sources''),
      demo_pool\<lparr>trace := trace demo_pool @ [AlGenSources None]\<rparr>)"
    using t1 scan nlt by blast
  then have r1: "getSourceId demo_world 1 demo_pool =
     (Inl (RuntimeError ''No available sources''), demo_pool\<lparr>trace := [AlGenSources None]\<rparr>)"
    by (simp add: demo_pool_def ALContext_new_def)
  show ?thesis using cur ids gen scan plt r3 tr3 r1 by blast
qed

section \<open>Fetching buffers\<close>

lemma poll_ready:
  "mLoadStatus (getLoadStatus (b\<lparr>mIsLoaded := mIsLoaded b \<or> d\<rparr>)) = Pending \<longleftrightarrow>
     mLoadStatus b = Pending \<and> \<not> mIsLoaded b \<and> \<not> d"
  by (cases "mLoadStatus b") (auto simp: getLoadStatus_def)

lemma poll_name:
  "mName (getLoadStatus (b\<lparr>mIsLoaded := l\<rparr>)) = mName b \<and>
   mId (getLoadStatus (b\<lparr>mIsLoaded := l\<rparr>)) = mId b"
  by (simp add: getLoadStatus_def)

lemma poll_pending:
  "mLoadStatus b = Pending \<Longrightarrow> \<not> mIsLoaded b \<Longrightarrow> \<not> d \<Longrightarrow>
     getLoadStatus (b\<lparr>mIsLoaded := mIsLoaded b \<or> d\<rparr>) = b"
  by (simp add: getLoadStatus_def)

lemma wait_loaded_Some:
  assumes h: "wait_loaded dn k b = Some b'"
  shows "mLoadStatus b' = Ready \<and> mName b' = mName b \<and> mId b' = mId b \<and>
     (mLoadStatus b = Ready \<or> mIsLoaded b \<or> (\<exists>j. dn j))"
proof (rule wait_loaded.raw_induct [where P = "\<lambda>dn k b b'.
     mLoadStatus b' = Ready \<and> mName b' = mName b \<and> mId b' = mId b \<and>
     (mLoadStatus b = Ready \<or> mIsLoaded b \<or> (\<exists>j. dn j))", OF _ h])
  fix wl :: "(nat \<Rightarrow> bool) \<Rightarrow> nat \<Rightarrow> ALBuffer \<Rightarrow> ALBuffer option"
    and dn :: "nat \<Rightarrow> bool" and k :: nat and buffer :: ALBuffer and b' :: ALBuffer
  assume IH: "\<And>d i c y. wl d i c = Some y \<Longrightarrow>
     mLoadStatus y = Ready \<and> mName y = mName c \<and> mId y = mId c \<and>
     (mLoadStatus c = Ready \<or> mIsLoaded c \<or> (\<exists>j. d j))"
  assume body: "(if mLoadStatus (getLoadStatus (buffer\<lparr>mIsLoaded := mIsLoaded buffer \<or> dn k\<rparr>)) = Pending
      then wl dn (Suc k) (getLoadStatus (buffer\<lparr>mIsLoaded := mIsLoaded buffer \<or> dn k\<rparr>))
      else Some (getLoadStatus (buffer\<lparr>mIsLoaded := mIsLoaded buffer \<or> dn k\<rparr>))) = Some b'"
  let ?p = "getLoadStatus (buffer\<lparr>mIsLoaded := mIsLoaded buffer \<or> dn k\<rparr>)"
  show "mLoadStatus b' = Ready \<and> mName b' = mName buffer \<and> mId b' = mId buffer \<and>
     (mLoadStatus buffer = Ready \<or> mIsLoaded buffer \<or> (\<exists>j. dn j))"
  proof (cases "mLoadStatus ?p = Pending")
    case True
    then have pend: "mLoadStatus buffer = Pending" "\<not> mIsLoaded buffer" "\<not> dn k"
      using poll_ready [of buffer "dn k"] by simp_all
    then have p: "?p = buffer" by (rule poll_pending)
    from body True have "wl dn (Suc k) ?p = Some b'" by simp
    from IH [OF this] show ?thesis unfolding p by simp
  next
    case False
    then have b': "b' = ?p" using body by simp
    have r: "mLoadStatus ?p = Ready" using False by (cases "mLoadStatus ?p") simp_all
    have "mLoadStatus buffer = Ready \<or> mIsLoaded buffer \<or> dn k"
      using False poll_ready [of buffer "dn k"] by (cases "mLoadStatus buffer") auto
    then show ?thesis unfolding b' using r poll_name [where b = buffer] by auto
  qed
qed

lemma wait_loaded_returns:
  assumes "mLoadStatus b = Ready \<or> mIsLoaded b \<or> (\<exists>j\<ge>k. dn j)"
  shows "\<exists>b'. wait_loaded dn k b = Some b'"
proof -
  have now: "\<exists>b'. wait_loaded dn k b = Some b'"
    if "mLoadStatus b = Ready \<or> mIsLoaded b \<or> dn k" for k b
  proof -
    have "mLoadStatus (getLoadStatus (b\<lparr>mIsLoaded := mIsLoaded b \<or> dn k\<rparr>)) \<noteq> Pending"
      using that poll_ready [of b "dn k"] by auto
    then show ?thesis by (subst wait_loaded.simps) simp
  qed
  have later: "\<exists>b'. wait_loaded dn k b = Some b'" if "dn (k + n)" for n k b
    using that
  proof (induction n arbitrary: k b)
    case 0
    then show ?case using now [of b k] by simp
  next
    case (Suc n)
    show ?case
    proof (cases "mLoadStatus b = Ready \<or> mIsLoaded b \<or> dn k")
      case True
      then show ?thesis by (rule now)
    next
      case False
      then have pend: "mLoadStatus b = Pending" "\<not> mIsLoaded b" "\<not> dn k"
        by (cases "mLoadStatus b"; simp)+
      then have p: "getLoadStatus (b\<lparr>mIsLoaded := mIsLoaded b \<or> dn k\<rparr>) = b" by (rule poll_pending)
      have "dn (Suc k + n)" using Suc.prems by simp
      from Suc.IH [OF this, of b] obtain b' where "wait_loaded dn (Suc k) b = Some b'" by blast
      then show ?thesis using pend p by (subst wait_loaded.simps) simp
    qed
  qed
  from assms consider "mLoadStatus b = Ready \<or> mIsLoaded b" | j where "k \<le> j" "dn j" by blast
  then show ?thesis
  proof cases
    case 1
    then show ?thesis using now [of b k] by blast
  next
    case 2
    then have "dn (k + (j - k))" by simp
    then show ?thesis by (rule later)
  qed
qed

lemma wait_loaded_None:
  "wait_loaded dn k b = None \<longleftrightarrow>
     mLoadStatus b = Pending \<and> \<not> mIsLoaded b \<and> (\<forall>j\<ge>k. \<not> dn j)"
proof
  assume n: "wait_loaded dn k b = None"
  show "mLoadStatus b = Pending \<and> \<not> mIsLoaded b \<and> (\<forall>j\<ge>k. \<not> dn j)"
  proof (rule ccontr)
    assume "\<not> (mLoadStatus b = Pending \<and> \<not> mIsLoaded b \<and> (\<forall>j\<ge>k. \<not> dn j))"
    then have "mLoadStatus b = Ready \<or> mIsLoaded b \<or> (\<exists>j\<ge>k. dn j)"
      by (cases "mLoadStatus b") auto
    from wait_loaded_returns [OF this] show False using n by simp
  qed
next
  assume a: "mLoadStatus b = Pending \<and> \<not> mIsLoaded b \<and> (\<forall>j\<ge>k. \<not> dn j)"
  have "\<not> (mLoadStatus b = Pending \<and> \<not> mIsLoaded b \<and> (\<forall>j\<ge>k. \<not> dn j))"
    if h: "wait_loaded dn k b = Some b'" for b'
  proof (rule wait_loaded.raw_induct [where P = "\<lambda>dn k b b'.
          \<not> (mLoadStatus b = Pending \<and> \<not> mIsLoaded b \<and> (\<forall>j\<ge>k. \<not> dn j))", OF _ h])
    fix wl :: "(nat \<Rightarrow> bool) \<Rightarrow> nat \<Rightarrow> ALBuffer \<Rightarrow> ALBuffer option"
    and dn :: "nat \<Rightarrow> bool" and k :: nat and buffer :: ALBuffer and b' :: ALBuffer
    assume IH: "\<And>d i c y. wl d i c = Some y \<Longrightarrow>
       \<not> (mLoadStatus c = Pending \<and> \<not> mIsLoaded c \<and> (\<forall>j\<ge>i. \<not> d j))"
    assume body: "(if mLoadStatus (getLoadStatus (buffer\<lparr>mIsLoaded := mIsLoaded buffer \<or> dn k\<rparr>)) = Pending
      then wl dn (Suc k) (getLoadStatus (buffer\<lparr>mIsLoaded := mIsLoaded buffer \<or> dn k\<rparr>))
      else Some (getLoadStatus (buffer\<lparr>mIsLoaded := mIsLoaded buffer \<or> dn k\<rparr>))) = Some b'"
    show "\<not> (mLoadStatus buffer = Pending \<and> \<not> mIsLoaded buffer \<and> (\<forall>j\<ge>k. \<not> dn j))"
    proof
      assume pre: "mLoadStatus buffer = Pending \<and> \<not> mIsLoaded buffer \<and> (\<forall>j\<ge>k. \<not> dn j)"
      then have nd: "\<not> dn k" by simp
      have p: "getLoadStatus (buffer\<lparr>mIsLoaded := mIsLoaded buffer \<or> dn k\<rparr>) = buffer"
        by (rule poll_pending) (simp_all add: pre nd)
      from body have "wl dn (Suc k) buffer = Some b'" unfolding p using pre by simp
      from IH [OF this] show False using pre by simp
    qed
  qed
  then show "wait_loaded dn k b = None" using a by (cases "wait_loaded dn k b") auto
qed

lemma find_buffer_sorted:
  "sorted (map (\<lambda>b. h (mName b)) bufs) \<Longrightarrow>
     find_buffer h bufs name = length (takeWhile (\<lambda>b. h (mName b) < h name) bufs)"
  unfolding find_buffer_def by (rule lower_bound_sorted)

lemma getBuffer_found:
  assumes "current w"
    and "find_buffer (hasher w) (mBuffers ctx) name \<noteq> length (mBuffers ctx)"
    and "mName (mBuffers ctx ! find_buffer (hasher w) (mBuffers ctx) name) = name"
  shows "getBuffer w name ctx =
     (case wait_loaded (worker_done w) 0 (mBuffers ctx ! find_buffer (hasher w) (mBuffers ctx) name) of
        None \<Rightarrow> None
      | Some buffer \<Rightarrow>
          Some (Inr buffer,
                ctx\<lparr>mBuffers := (mBuffers ctx)[find_buffer (hasher w) (mBuffers ctx) name := buffer]\<rparr>))"
  using assms by (simp add: getBuffer_def Let_def)

lemma getBuffer_absent_Inr:
  assumes "current w"
    and "\<not> (find_buffer (hasher w) (mBuffers ctx) name \<noteq> length (mBuffers ctx) \<and>
            mName (mBuffers ctx ! find_buffer (hasher w) (mBuffers ctx) name) = name)"
    and "getBuffer w name ctx = Some (Inr buffer, ctx')"
  shows "mBuffers ctx' = insert_at (find_buffer (hasher w) (mBuffers ctx) name) buffer (mBuffers ctx) \<and>
         mLoadStatus buffer = Ready \<and> mName buffer = name \<and>
         alGenBuffers w = Some (mId buffer) \<and> alBufferData w \<and>
         (mHasExt ctx SOFT_loop_points \<longrightarrow> alBufferiv w)"
proof -
  from assms obtain decoder where d: "createDecoder w ctx name = Some (Inr decoder)"
    by (auto simp: getBuffer_def Let_def split: option.splits sum.splits if_splits)
  show ?thesis
    using assms d
    by (auto simp: getBuffer_def Let_def ALBuffer_new_def split: if_splits)
qed

lemma getBuffer_Inl:
  assumes "getBuffer w name ctx = Some (Inl e, ctx')"
  shows "mBuffers ctx' = mBuffers ctx"
proof (cases "current w")
  case False
  then show ?thesis using assms by (simp add: getBuffer_def)
next
  case True
  show ?thesis
  proof (cases "find_buffer (hasher w) (mBuffers ctx) name \<noteq> length (mBuffers ctx) \<and>
            mName (mBuffers ctx ! find_buffer (hasher w) (mBuffers ctx) name) = name")
    case f: True
    then show ?thesis using assms True getBuffer_found [of w ctx name]
      by (auto split: option.splits)
  next
    case f: False
    show ?thesis
    proof (cases "createDecoder w ctx name")
      case None
      then show ?thesis using assms True f by (simp add: getBuffer_def Let_def)
    next
      case (Some r)
      show ?thesis
      proof (cases r)
        case (Inl e')
        then show ?thesis using assms True f Some by (auto simp: getBuffer_def Let_def)
      next
        case (Inr decoder)
        then show ?thesis using assms True f Some
          by (auto simp: getBuffer_def Let_def split: if_splits)
      qed
    qed
  qed
qed


lemma lower_bound_bounds:
  "first \<le> lower_bound xs cmp first count \<and> lower_bound xs cmp first count \<le> first + count"
proof (induction xs cmp first count rule: lower_bound.induct)
  case (1 xs cmp first count)
  show ?case
  proof (cases "0 < count")
    case False
    then show ?thesis by (simp add: lower_bound.simps)
  next
    case True
    show ?thesis
    proof (cases "cmp (xs ! (first + count div 2))")
      case c: True
      have "lower_bound xs cmp first count =
            lower_bound xs cmp (first + count div 2 + 1) (count - (count div 2 + 1))"
        using True c by (simp add: lower_bound.simps [of xs cmp first count])
      moreover have "first + count div 2 + 1 + (count - (count div 2 + 1)) \<le> first + count"
        using True by simp
      ultimately show ?thesis using "1.IH"(1) [OF True c] by simp
    next
      case c: False
      have "lower_bound xs cmp first count = lower_bound xs cmp first (count div 2)"
        using True c by (simp add: lower_bound.simps [of xs cmp first count])
      moreover have "count div 2 \<le> count" by simp
      ultimately show ?thesis using "1.IH"(2) [OF True c] by linarith
    qed
  qed
qed

lemma find_buffer_le: "find_buffer h bufs name \<le> length bufs"
  unfolding find_buffer_def using lower_bound_bounds [of 0 bufs _ "length bufs"] by simp

lemma nth_insert_at: "i \<le> length xs \<Longrightarrow> insert_at i x xs ! i = x"
  by (simp add: insert_at_def nth_append)

lemma getBufferAsync_found:
  assumes "current w"
    and "find_buffer (hasher w) (mBuffers ctx) name \<noteq> length (mBuffers ctx)"
    and "mName (mBuffers ctx ! find_buffer (hasher w) (mBuffers ctx) name) = name"
  shows "getBufferAsync w name ctx =
     Some (Inr (mBuffers ctx ! find_buffer (hasher w) (mBuffers ctx) name), ctx)"
  using assms by (simp add: getBufferAsync_def Let_def)

lemma getBufferAsync_absent_Inr:
  assumes "current w"
    and "\<not> (find_buffer (hasher w) (mBuffers ctx) name \<noteq> length (mBuffers ctx) \<and>
            mName (mBuffers ctx ! find_buffer (hasher w) (mBuffers ctx) name) = name)"
    and "getBufferAsync w name ctx = Some (Inr buffer, ctx')"
  shows "mBuffers ctx' = insert_at (find_buffer (hasher w) (mBuffers ctx) name) buffer (mBuffers ctx) \<and>
         mLoadStatus buffer = Pending \<and> mName buffer = name \<and>
         alGenBuffers w = Some (mId buffer)"
proof -
  from assms obtain decoder where d: "createDecoder w ctx name = Some (Inr decoder)"
    by (auto simp: getBufferAsync_def Let_def split: option.splits sum.splits if_splits)
  show ?thesis
    using assms d
    by (auto simp: getBufferAsync_def Let_def ALBuffer_new_def split: if_splits option.splits)
qed

lemma getBufferAsync_Inl:
  assumes "getBufferAsync w name ctx = Some (Inl e, ctx')"
  shows "mBuffers ctx' = mBuffers ctx"
proof (cases "current w")
  case False
  then show ?thesis using assms by (simp add: getBufferAsync_def)
next
  case True
  show ?thesis
  proof (cases "find_buffer (hasher w) (mBuffers ctx) name \<noteq> length (mBuffers ctx) \<and>
            mName (mBuffers ctx ! find_buffer (hasher w) (mBuffers ctx) name) = name")
    case f: True
    then show ?thesis using assms True getBufferAsync_found [of w ctx name] by simp
  next
    case f: False
    show ?thesis
    proof (cases "createDecoder w ctx name")
      case None
      then show ?thesis using assms True f by (simp add: getBufferAsync_def Let_def)
    next
      case (Some r)
      show ?thesis
      proof (cases r)
        case (Inl e')
        then show ?thesis using assms True f Some by (auto simp: getBufferAsync_def Let_def)
      next
        case (Inr decoder)
        then show ?thesis using assms True f Some
          by (auto simp: getBufferAsync_def Let_def split: if_splits option.splits)
      qed
    qed
  qed
qed


lemma createDecoder_demo:
  assumes "filesystem w = (\<lambda>n. True)" and "sFileFactory w = None" and "sDecoders w = []"
    and "sDefaults w = sDefaultDecoders (accepting demo_decoder) (\<lambda>n. None)"
  shows "createDecoder w ctx name = Some (Inr demo_decoder)"
  using assms
  by (simp add: createDecoder_def FileIOFactory_get_def GetDecoder_def
      sDefaultDecoders_def accepting_def Let_def)

lemma wait_loaded_demo:
  "wait_loaded (\<lambda>k. 2 \<le> k) 0 (ALBuffer_new 7 44100 2 2 False ''a'') =
     Some (ALBuffer_new 7 44100 2 2 True ''a'')"
proof -
  let ?b = "ALBuffer_new 7 44100 2 2 False ''a''"
  have p: "mLoadStatus ?b = Pending" "\<not> mIsLoaded ?b" by (simp_all add: ALBuffer_new_def)
  have s0: "wait_loaded (\<lambda>k. 2 \<le> k) 0 ?b = wait_loaded (\<lambda>k. 2 \<le> k) (Suc 0) ?b"
    by (subst wait_loaded.simps) (simp add: getLoadStatus_def ALBuffer_new_def)
  have s1: "wait_loaded (\<lambda>k. 2 \<le> k) (Suc 0) ?b = wait_loaded (\<lambda>k. 2 \<le> k) (Suc (Suc 0)) ?b"
    by (subst wait_loaded.simps) (simp add: getLoadStatus_def ALBuffer_new_def)
  have s2: "wait_loaded (\<lambda>k. 2 \<le> k) (Suc (Suc 0)) ?b = Some (ALBuffer_new 7 44100 2 2 True ''a'')"
    by (subst wait_loaded.simps) (simp add: getLoadStatus_def ALBuffer_new_def)
  show ?thesis using s0 s1 s2 by simp
qed

text \<open>
  What holds of every call: a buffer that \<^verbatim>\<open>getBuffer(name)\<close> returns has load status
  Ready, carries the name asked for and is an entry of the registry.  When the lookup
  finds the name, the call polls the entry until it is Ready: it returns that entry, now
  Ready, as soon as the entry is loaded, and it never returns exactly when the entry is
  Pending and the worker never finishes its load.  When the lookup does not find the
  name, a buffer that is returned has been inserted at the position of the lookup
  already in the Ready state.  Whether the lookup finds every registered name is
  another matter, taken up in the section on names with the same hash.
\<close>

theorem getBuffer_returns_Ready:
  "(getBuffer w name ctx = Some (Inr buffer, ctx') \<longrightarrow>
      mLoadStatus buffer = Ready \<and> mName buffer = name \<and>
      (\<exists>i<length (mBuffers ctx'). mBuffers ctx' ! i = buffer)) \<and>
   (current w \<and> find_buffer (hasher w) (mBuffers ctx) name \<noteq> length (mBuffers ctx) \<and>
    mName (mBuffers ctx ! find_buffer (hasher w) (mBuffers ctx) name) = name \<longrightarrow>
      (getBuffer w name ctx = None \<longleftrightarrow>
         mLoadStatus (mBuffers ctx ! find_buffer (hasher w) (mBuffers ctx) name) = Pending \<and>
         \<not> mIsLoaded (mBuffers ctx ! find_buffer (hasher w) (mBuffers ctx) name) \<and>
         (\<forall>k. \<not> worker_done w k)) \<and>
      (getBuffer w name ctx \<noteq> None \<longrightarrow>
         (\<exists>b. getBuffer w name ctx =
                 Some (Inr b, ctx\<lparr>mBuffers :=
                    (mBuffers ctx)[find_buffer (hasher w) (mBuffers ctx) name := b]\<rparr>) \<and>
              mLoadStatus b = Ready \<and>
              mId b = mId (mBuffers ctx ! find_buffer (hasher w) (mBuffers ctx) name)))) \<and>
   (current w \<and>
    \<not> (find_buffer (hasher w) (mBuffers ctx) name \<noteq> length (mBuffers ctx) \<and>
       mName (mBuffers ctx ! find_buffer (hasher w) (mBuffers ctx) name) = name) \<and>
    getBuffer w name ctx = Some (Inr buffer, ctx') \<longrightarrow>
      mBuffers ctx' = insert_at (find_buffer (hasher w) (mBuffers ctx) name) buffer (mBuffers ctx) \<and>
      mLoadStatus (mBuffers ctx' ! find_buffer (hasher w) (mBuffers ctx) name) = Ready)"
proof -
  let ?iter = "find_buffer (hasher w) (mBuffers ctx) name"
  let ?b = "mBuffers ctx ! ?iter"
  let ?found = "?iter \<noteq> length (mBuffers ctx) \<and> mName ?b = name"
  have le: "?iter \<le> length (mBuffers ctx)" by (rule find_buffer_le)
  have found: "(getBuffer w name ctx = None \<longleftrightarrow>
         mLoadStatus ?b = Pending \<and> \<not> mIsLoaded ?b \<and> (\<forall>k. \<not> worker_done w k)) \<and>
      (getBuffer w name ctx \<noteq> None \<longrightarrow>
         (\<exists>b. getBuffer w name ctx = Some (Inr b, ctx\<lparr>mBuffers := (mBuffers ctx)[?iter := b]\<rparr>) \<and>
              mLoadStatus b = Ready \<and> mId b = mId ?b))"
    if c: "current w" and f: ?found
  proof -
    from c f have g: "getBuffer w name ctx =
       (case wait_loaded (worker_done w) 0 ?b of None \<Rightarrow> None
        | Some b \<Rightarrow> Some (Inr b, ctx\<lparr>mBuffers := (mBuffers ctx)[?iter := b]\<rparr>))"
      by (simp add: getBuffer_found)
    have n: "getBuffer w name ctx = None \<longleftrightarrow> wait_loaded (worker_done w) 0 ?b = None"
      unfolding g by (simp split: option.splits)
    have s: "getBuffer w name ctx \<noteq> None \<longrightarrow>
         (\<exists>b. getBuffer w name ctx = Some (Inr b, ctx\<lparr>mBuffers := (mBuffers ctx)[?iter := b]\<rparr>) \<and>
              mLoadStatus b = Ready \<and> mId b = mId ?b)"
    proof
      assume "getBuffer w name ctx \<noteq> None"
      then have "wait_loaded (worker_done w) 0 ?b \<noteq> None" using n by simp
      then obtain b where wl: "wait_loaded (worker_done w) 0 ?b = Some b" by blast
      then have "getBuffer w name ctx = Some (Inr b, ctx\<lparr>mBuffers := (mBuffers ctx)[?iter := b]\<rparr>)"
        unfolding g by simp
      then show "\<exists>b. getBuffer w name ctx = Some (Inr b, ctx\<lparr>mBuffers := (mBuffers ctx)[?iter := b]\<rparr>) \<and>
              mLoadStatus b = Ready \<and> mId b = mId ?b"
        using wait_loaded_Some [OF wl] by blast
    qed
    have "wait_loaded (worker_done w) 0 ?b = None \<longleftrightarrow>
         mLoadStatus ?b = Pending \<and> \<not> mIsLoaded ?b \<and> (\<forall>k. \<not> worker_done w k)"
      using wait_loaded_None [of "worker_done w" 0 ?b] by simp
    with n have a1: "getBuffer w name ctx = None \<longleftrightarrow>
         mLoadStatus ?b = Pending \<and> \<not> mIsLoaded ?b \<and> (\<forall>k. \<not> worker_done w k)"
      by (rule trans)
    from a1 s show ?thesis by (rule conjI)
  qed
  have absent: "mBuffers ctx' = insert_at ?iter buffer (mBuffers ctx) \<and>
      mLoadStatus buffer = Ready \<and> mName buffer = name \<and>
      mLoadStatus (mBuffers ctx' ! ?iter) = Ready"
    if c: "current w" and f: "\<not> ?found" and r: "getBuffer w name ctx = Some (Inr buffer, ctx')"
    using getBuffer_absent_Inr [OF c f r] nth_insert_at [OF le, of buffer] by simp
  have main: "mLoadStatus buffer = Ready \<and> mName buffer = name \<and>
      (\<exists>i<length (mBuffers ctx'). mBuffers ctx' ! i = buffer)"
    if r: "getBuffer w name ctx = Some (Inr buffer, ctx')"
  proof -
    have c: "current w" using r by (cases "current w") (simp_all add: getBuffer_def)
    show ?thesis
    proof (cases ?found)
      case True
      then have lt: "?iter < length (mBuffers ctx)" using le by simp
      from True c have g: "getBuffer w name ctx =
         (case wait_loaded (worker_done w) 0 ?b of None \<Rightarrow> None
          | Some b \<Rightarrow> Some (Inr b, ctx\<lparr>mBuffers := (mBuffers ctx)[?iter := b]\<rparr>))"
        by (simp add: getBuffer_found)
      from r g have wl: "wait_loaded (worker_done w) 0 ?b = Some buffer"
        and c': "ctx' = ctx\<lparr>mBuffers := (mBuffers ctx)[?iter := buffer]\<rparr>"
        by (auto split: option.splits)
      have "mBuffers ctx' ! ?iter = buffer" "?iter < length (mBuffers ctx')"
        using lt unfolding c' by simp_all
      then show ?thesis using wait_loaded_Some [OF wl] True by auto
    next
      case False
      from absent [OF c False r] have
        "mBuffers ctx' ! ?iter = buffer" "?iter < length (mBuffers ctx')"
        using le nth_insert_at [OF le, of buffer] by (simp_all add: insert_at_def)
      then show ?thesis using absent [OF c False r] by auto
    qed
  qed
  show ?thesis using found absent main by blast
qed

theorem getBuffer_returns_Ready_witness:
  "current demo_world \<and>
   find_buffer (hasher demo_world) (mBuffers demo_registry) ''a'' = 0 \<and>
   mName (mBuffers demo_registry ! 0) = ''a'' \<and>
   mLoadStatus (mBuffers demo_registry ! 0) = Pending \<and>
   getBuffer demo_world ''a'' demo_registry =
     Some (Inr (ALBuffer_new 7 44100 2 2 True ''a''),
           demo_registry\<lparr>mBuffers := [ALBuffer_new 7 44100 2 2 True ''a'']\<rparr>) \<and>
   mLoadStatus (ALBuffer_new 7 44100 2 2 True ''a'') = Ready"
proof -
  have cur: "current demo_world" and wd: "worker_done demo_world = (\<lambda>k. 2 \<le> k)"
    by (simp_all add: demo_world_def)
  have bufs: "mBuffers demo_registry = [ALBuffer_new 7 44100 2 2 False ''a'']"
    by (simp add: demo_registry_def ALContext_new_def)
  have fb: "find_buffer (hasher demo_world) (mBuffers demo_registry) ''a'' = 0"
    unfolding bufs by (simp add: find_buffer_def lower_bound.simps ALBuffer_new_def)
  have nm: "mName (mBuffers demo_registry ! 0) = ''a''"
    and p: "mLoadStatus (mBuffers demo_registry ! 0) = Pending"
    unfolding bufs by (simp_all add: ALBuffer_new_def)
  have f1: "find_buffer (hasher demo_world) (mBuffers demo_registry) ''a''
              \<noteq> length (mBuffers demo_registry)"
    unfolding fb unfolding bufs by simp
  have f2: "mName (mBuffers demo_registry
              ! find_buffer (hasher demo_world) (mBuffers demo_registry) ''a'') = ''a''"
    unfolding fb by (rule nm)
  have g: "getBuffer demo_world ''a'' demo_registry =
     Some (Inr (ALBuffer_new 7 44100 2 2 True ''a''),
           demo_registry\<lparr>mBuffers := [ALBuffer_new 7 44100 2 2 True ''a'']\<rparr>)"
    unfolding getBuffer_found [OF cur f1 f2] fb wd
    by (simp add: bufs wait_loaded_demo)
  have "mLoadStatus (ALBuffer_new 7 44100 2 2 True ''a'') = Ready"
    using getBuffer_returns_Ready [of demo_world "''a''" demo_registry
        "ALBuffer_new 7 44100 2 2 True ''a''"
        "demo_registry\<lparr>mBuffers := [ALBuffer_new 7 44100 2 2 True ''a'']\<rparr>"] g
    by blast
  then show ?thesis using cur fb nm p g by blast
qed

lemma find_buffer_empty: "find_buffer h [] name = 0"
  by (simp add: find_buffer_def lower_bound.simps)

section \<open>The order of the registry\<close>

lemma list_update_same_key:
  "i < length xs \<Longrightarrow> f y = f (xs ! i) \<Longrightarrow> map f (xs[i := y]) = map f xs"
  by (simp add: map_update list_update_same_conv)

lemma getBuffer_sorted:
  assumes s: "sorted (map (\<lambda>b. hasher w (mName b)) (mBuffers ctx))"
    and r: "getBuffer w name ctx = Some (r, ctx')"
  shows "sorted (map (\<lambda>b. hasher w (mName b)) (mBuffers ctx'))"
proof (cases r)
  case (Inl e)
  then show ?thesis using getBuffer_Inl [of w name ctx e ctx'] r s by simp
next
  case (Inr buffer)
  let ?iter = "find_buffer (hasher w) (mBuffers ctx) name"
  have c: "current w" using r Inr by (cases "current w") (simp_all add: getBuffer_def)
  have le: "?iter \<le> length (mBuffers ctx)" by (rule find_buffer_le)
  show ?thesis
  proof (cases "?iter \<noteq> length (mBuffers ctx) \<and> mName (mBuffers ctx ! ?iter) = name")
    case True
    then have lt: "?iter < length (mBuffers ctx)" using le by simp
    from r Inr getBuffer_found [OF c] True
    have wl: "wait_loaded (worker_done w) 0 (mBuffers ctx ! ?iter) = Some buffer"
      and c': "ctx' = ctx\<lparr>mBuffers := (mBuffers ctx)[?iter := buffer]\<rparr>"
      by (auto split: option.splits)
    have "mName buffer = mName (mBuffers ctx ! ?iter)" using wait_loaded_Some [OF wl] by simp
    then have "map (\<lambda>b. hasher w (mName b)) ((mBuffers ctx)[?iter := buffer]) =
               map (\<lambda>b. hasher w (mName b)) (mBuffers ctx)"
      using lt by (simp add: list_update_same_key)
    then show ?thesis using s unfolding c' by simp
  next
    case False
    from getBuffer_absent_Inr [OF c False] r Inr
    have m: "mBuffers ctx' = insert_at ?iter buffer (mBuffers ctx)" and n: "mName buffer = name"
      by simp_all
    have "sorted (map (\<lambda>b. hasher w (mName b))
            (insert_at (length (takeWhile (\<lambda>b. hasher w (mName b) < hasher w name) (mBuffers ctx)))
               buffer (mBuffers ctx)))"
      using s by (rule sorted_insert_at) (simp add: n)
    then show ?thesis unfolding m find_buffer_sorted [OF s] .
  qed
qed

lemma getBufferAsync_sorted:
  assumes s: "sorted (map (\<lambda>b. hasher w (mName b)) (mBuffers ctx))"
    and r: "getBufferAsync w name ctx = Some (r, ctx')"
  shows "sorted (map (\<lambda>b. hasher w (mName b)) (mBuffers ctx'))"
proof (cases r)
  case (Inl e)
  then show ?thesis using getBufferAsync_Inl [of w name ctx e ctx'] r s by simp
next
  case (Inr buffer)
  let ?iter = "find_buffer (hasher w) (mBuffers ctx) name"
  have c: "current w" using r Inr by (cases "current w") (simp_all add: getBufferAsync_def)
  show ?thesis
  proof (cases "?iter \<noteq> length (mBuffers ctx) \<and> mName (mBuffers ctx ! ?iter) = name")
    case True
    then have "ctx' = ctx" using r getBufferAsync_found [OF c] by simp
    then show ?thesis using s by simp
  next
    case False
    from getBufferAsync_absent_Inr [OF c False] r Inr
    have m: "mBuffers ctx' = insert_at ?iter buffer (mBuffers ctx)" and n: "mName buffer = name"
      by simp_all
    have "sorted (map (\<lambda>b. hasher w (mName b))
            (insert_at (length (takeWhile (\<lambda>b. hasher w (mName b) < hasher w name) (mBuffers ctx)))
               buffer (mBuffers ctx)))"
      using s by (rule sorted_insert_at) (simp add: n)
    then show ?thesis unfolding m find_buffer_sorted [OF s] .
  qed
qed

lemma removeBuffer_sorted:
  assumes s: "sorted (map (\<lambda>b. hasher w (mName b)) (mBuffers ctx))"
  shows "sorted (map (\<lambda>b. hasher w (mName b)) (mBuffers (snd (removeBuffer w name ctx))))"
  using s sorted_erase_at [OF s, of "find_buffer (hasher w) (mBuffers ctx) name"]
  by (simp add: removeBuffer_def Let_def split: option.splits)

lemma getBuffers_sorted:
  "sorted (map (\<lambda>b. hasher w (mName b)) (mBuffers ctx)) \<Longrightarrow>
   getBuffers w ns ctx = Some ctx' \<Longrightarrow>
   sorted (map (\<lambda>b. hasher w (mName b)) (mBuffers ctx'))"
proof (induction ns arbitrary: ctx)
  case Nil
  then show ?case by simp
next
  case (Cons n ns)
  let ?w = "w\<lparr>alGenBuffers := Some (snd n)\<rparr>"
  from Cons.prems(2) obtain buffer ctx1 where
    g: "getBuffer ?w (fst n) ctx = Some (Inr buffer, ctx1)" and rest: "getBuffers w ns ctx1 = Some ctx'"
    by (auto split: option.splits sum.splits prod.splits)
  have "sorted (map (\<lambda>b. hasher ?w (mName b)) (mBuffers ctx))" using Cons.prems(1) by simp
  from getBuffer_sorted [OF this g] have "sorted (map (\<lambda>b. hasher w (mName b)) (mBuffers ctx1))" by simp
  from Cons.IH [OF this rest] show ?case .
qed

lemma getBuffer_names:
  assumes r: "getBuffer w name ctx = Some (Inr b, ctx')"
  shows "mName ` set (mBuffers ctx') = insert name (mName ` set (mBuffers ctx))"
proof -
  let ?iter = "find_buffer (hasher w) (mBuffers ctx) name"
  have c: "current w" using r by (cases "current w") (simp_all add: getBuffer_def)
  have le: "?iter \<le> length (mBuffers ctx)" by (rule find_buffer_le)
  show ?thesis
  proof (cases "?iter \<noteq> length (mBuffers ctx) \<and> mName (mBuffers ctx ! ?iter) = name")
    case True
    then have lt: "?iter < length (mBuffers ctx)" using le by simp
    from True have f1: "?iter \<noteq> length (mBuffers ctx)"
      and f2: "mName (mBuffers ctx ! ?iter) = name" by simp_all
    have g: "getBuffer w name ctx =
       (case wait_loaded (worker_done w) 0 (mBuffers ctx ! ?iter) of None \<Rightarrow> None
        | Some buffer \<Rightarrow> Some (Inr buffer, ctx\<lparr>mBuffers := (mBuffers ctx)[?iter := buffer]\<rparr>))"
      using c f1 f2 by (rule getBuffer_found)
    from r g have wl: "wait_loaded (worker_done w) 0 (mBuffers ctx ! ?iter) = Some b"
      and c': "ctx' = ctx\<lparr>mBuffers := (mBuffers ctx)[?iter := b]\<rparr>"
      by (auto split: option.splits)
    have nb: "mName b = mName (mBuffers ctx ! ?iter)" using wait_loaded_Some [OF wl] by simp
    have "map mName ((mBuffers ctx)[?iter := b]) = map mName (mBuffers ctx)"
      using lt nb by (rule list_update_same_key)
    then have "map mName (mBuffers ctx') = map mName (mBuffers ctx)" unfolding c' by simp
    then have "set (map mName (mBuffers ctx')) = set (map mName (mBuffers ctx))" by simp
    then have same: "mName ` set (mBuffers ctx') = mName ` set (mBuffers ctx)" by simp
    have "mBuffers ctx ! ?iter \<in> set (mBuffers ctx)" using lt by (rule nth_mem)
    then have "mName (mBuffers ctx ! ?iter) \<in> mName ` set (mBuffers ctx)" by (rule imageI)
    then have "name \<in> mName ` set (mBuffers ctx)" using f2 by simp
    then show ?thesis using same by (simp add: insert_absorb)
  next
    case False
    from getBuffer_absent_Inr [OF c False r]
    have i: "mBuffers ctx' = insert_at ?iter b (mBuffers ctx)" and nb: "mName b = name"
      by simp_all
    show ?thesis unfolding i set_insert_at [OF le] using nb by simp
  qed
qed

lemma getBuffers_names:
  "getBuffers w ns ctx = Some ctx' \<Longrightarrow>
     mName ` set (mBuffers ctx') = mName ` set (mBuffers ctx) \<union> fst ` set ns"
proof (induction ns arbitrary: ctx)
  case Nil
  then show ?case by simp
next
  case (Cons n ns)
  let ?w = "w\<lparr>alGenBuffers := Some (snd n)\<rparr>"
  from Cons.prems obtain buffer ctx1 where
    g: "getBuffer ?w (fst n) ctx = Some (Inr buffer, ctx1)" and rest: "getBuffers w ns ctx1 = Some ctx'"
    by (auto split: option.splits sum.splits prod.splits)
  have a: "mName ` set (mBuffers ctx1) = insert (fst n) (mName ` set (mBuffers ctx))"
    using g by (rule getBuffer_names)
  have b: "mName ` set (mBuffers ctx') = mName ` set (mBuffers ctx1) \<union> fst ` set ns"
    using rest by (rule Cons.IH)
  show ?case unfolding b a by simp
qed

text \<open>
  Claim C3, amended.  The registry is at all times sorted by the hash of the buffer
  name, \<^verbatim>\<open>std::hash<String>\<close>, not by the name: it is empty at construction, and
  \<^verbatim>\<open>getBuffer\<close>, \<^verbatim>\<open>getBufferAsync\<close> and \<^verbatim>\<open>removeBuffer\<close>, the only functions that
  change it, each leave it sorted by hash.  The lookup is the binary search
  \<^verbatim>\<open>std::lower_bound\<close> over that order: it yields the position of the first entry whose
  hash is not below the hash of the name.  So a run of synchronous fetches from a fresh
  context leaves the registry holding the names fetched, in ascending order of their
  hashes.
\<close>

theorem registry_sorted_by_hash:
  assumes "sorted (map (\<lambda>b. hasher w (mName b)) (mBuffers ctx))"
  shows "find_buffer (hasher w) (mBuffers ctx) name =
           length (takeWhile (\<lambda>b. hasher w (mName b) < hasher w name) (mBuffers ctx)) \<and>
         (getBuffer w name ctx = Some (r, ctx') \<longrightarrow>
            sorted (map (\<lambda>b. hasher w (mName b)) (mBuffers ctx'))) \<and>
         (getBufferAsync w name ctx = Some (r, ctx') \<longrightarrow>
            sorted (map (\<lambda>b. hasher w (mName b)) (mBuffers ctx'))) \<and>
         sorted (map (\<lambda>b. hasher w (mName b)) (mBuffers (snd (removeBuffer w name ctx)))) \<and>
         (getBuffers w ns (ALContext_new c) = Some ctx' \<longrightarrow>
            sorted (map (\<lambda>b. hasher w (mName b)) (mBuffers ctx')) \<and>
            mName ` set (mBuffers ctx') = fst ` set ns)"
proof -
  have e: "sorted (map (\<lambda>b. hasher w (mName b)) (mBuffers (ALContext_new c)))"
    by (simp add: ALContext_new_def)
  have n: "getBuffers w ns (ALContext_new c) = Some ctx' \<longrightarrow>
             mName ` set (mBuffers ctx') = fst ` set ns"
    using getBuffers_names [of w ns "ALContext_new c" ctx'] by (simp add: ALContext_new_def)
  show ?thesis
    using find_buffer_sorted [OF assms, of name] getBuffer_sorted [OF assms, of name r ctx']
      getBufferAsync_sorted [OF assms, of name r ctx'] removeBuffer_sorted [OF assms, of name]
      getBuffers_sorted [OF e, of ns ctx'] n
    by blast
qed

lemma fnv1a_abc:
  "fnv1a ''a'' = 12638187200555641996" "fnv1a ''b'' = 12638190499090526629"
  "fnv1a ''c'' = 12638189399578898418"
  by (simp_all add: fnv1a_def)

lemma getBuffer_demo_insert:
  assumes "mMessage ctx = None" and "\<not> mHasExt ctx SOFT_loop_points"
    and "find_buffer fnv1a (mBuffers ctx) name = length (mBuffers ctx) \<or>
         mName (mBuffers ctx ! find_buffer fnv1a (mBuffers ctx) name) \<noteq> name"
  shows "getBuffer (demo_world\<lparr>alGenBuffers := Some i\<rparr>) name ctx =
     Some (Inr (ALBuffer_new i 44100 2 2 True name),
           ctx\<lparr>trace := trace ctx @ [AlGenBuffers (Some i), AlBufferData i 4353 44100],
               mBuffers := insert_at (find_buffer fnv1a (mBuffers ctx) name)
                             (ALBuffer_new i 44100 2 2 True name) (mBuffers ctx)\<rparr>)"
proof -
  have cd: "createDecoder (demo_world\<lparr>alGenBuffers := Some i\<rparr>) ctx name = Some (Inr demo_decoder)"
    by (rule createDecoder_demo) (simp_all add: demo_world_def)
  have h: "hasher (demo_world\<lparr>alGenBuffers := Some i\<rparr>) = fnv1a"
    and c: "current (demo_world\<lparr>alGenBuffers := Some i\<rparr>)"
    by (simp_all add: demo_world_def)
  from assms(3) show ?thesis
  proof
    assume "find_buffer fnv1a (mBuffers ctx) name = length (mBuffers ctx)"
    then show ?thesis
      unfolding getBuffer_def cd h using assms(1,2) c
      by (simp add: Let_def demo_world_def demo_decoder_def AL_NONE_def)
  next
    assume "mName (mBuffers ctx ! find_buffer fnv1a (mBuffers ctx) name) \<noteq> name"
    then show ?thesis
      unfolding getBuffer_def cd h using assms(1,2) c
      by (simp add: Let_def demo_world_def demo_decoder_def AL_NONE_def)
  qed
qed

lemma getBuffers_demo_abc:
  "\<exists>c2 c3.
     getBuffers demo_world [(''b'', 7), (''a'', 8)] (ALContext_new None) = Some c2 \<and>
     mBuffers c2 = [ALBuffer_new 8 44100 2 2 True ''a'', ALBuffer_new 7 44100 2 2 True ''b''] \<and>
     getBuffers demo_world [(''b'', 7), (''a'', 8), (''c'', 9)] (ALContext_new None) = Some c3 \<and>
     mBuffers c3 = [ALBuffer_new 8 44100 2 2 True ''a'', ALBuffer_new 9 44100 2 2 True ''c'',
                    ALBuffer_new 7 44100 2 2 True ''b'']"
proof -
  let ?B = "ALBuffer_new 7 44100 2 2 True ''b''"
  let ?A = "ALBuffer_new 8 44100 2 2 True ''a''"
  let ?C = "ALBuffer_new 9 44100 2 2 True ''c''"
  define c0 where "c0 = ALContext_new None"
  define c1 where "c1 = c0\<lparr>trace := trace c0 @ [AlGenBuffers (Some 7), AlBufferData 7 4353 44100],
               mBuffers := insert_at (find_buffer fnv1a (mBuffers c0) ''b'') ?B (mBuffers c0)\<rparr>"
  define c2 where "c2 = c1\<lparr>trace := trace c1 @ [AlGenBuffers (Some 8), AlBufferData 8 4353 44100],
               mBuffers := insert_at (find_buffer fnv1a (mBuffers c1) ''a'') ?A (mBuffers c1)\<rparr>"
  define c3 where "c3 = c2\<lparr>trace := trace c2 @ [AlGenBuffers (Some 9), AlBufferData 9 4353 44100],
               mBuffers := insert_at (find_buffer fnv1a (mBuffers c2) ''c'') ?C (mBuffers c2)\<rparr>"
  have b0: "mBuffers c0 = []" and m0: "mMessage c0 = None" and x0: "\<not> mHasExt c0 SOFT_loop_points"
    by (simp_all add: c0_def ALContext_new_def)
  have b1: "mBuffers c1 = [?B]" and m1: "mMessage c1 = None" and x1: "\<not> mHasExt c1 SOFT_loop_points"
    by (simp_all add: c1_def b0 m0 x0 find_buffer_empty insert_at_def)
  have f1: "find_buffer fnv1a [?B] ''a'' = 0"
    by (subst find_buffer_sorted) (simp_all add: ALBuffer_new_def fnv1a_abc)
  have b2: "mBuffers c2 = [?A, ?B]" and m2: "mMessage c2 = None" and x2: "\<not> mHasExt c2 SOFT_loop_points"
    by (simp_all add: c2_def b1 m1 x1 f1 insert_at_def)
  have f2: "find_buffer fnv1a [?A, ?B] ''c'' = Suc 0"
    by (subst find_buffer_sorted) (simp_all add: ALBuffer_new_def fnv1a_abc)
  have b3: "mBuffers c3 = [?A, ?C, ?B]"
    by (simp add: c3_def b2 f2 insert_at_def)
  have g1: "getBuffer (demo_world\<lparr>alGenBuffers := Some 7\<rparr>) ''b'' c0 = Some (Inr ?B, c1)"
    unfolding c1_def by (rule getBuffer_demo_insert [OF m0 x0]) (simp add: b0 find_buffer_empty)
  have g2: "getBuffer (demo_world\<lparr>alGenBuffers := Some 8\<rparr>) ''a'' c1 = Some (Inr ?A, c2)"
    unfolding c2_def by (rule getBuffer_demo_insert [OF m1 x1]) (simp add: b1 f1, simp add: ALBuffer_new_def)
  have g3: "getBuffer (demo_world\<lparr>alGenBuffers := Some 9\<rparr>) ''c'' c2 = Some (Inr ?C, c3)"
    unfolding c3_def by (rule getBuffer_demo_insert [OF m2 x2]) (simp add: b2 f2, simp add: ALBuffer_new_def)
  have r2: "getBuffers demo_world [(''b'', 7), (''a'', 8)] (ALContext_new None) = Some c2"
    unfolding c0_def [symmetric] by (simp add: g1 g2)
  have r3: "getBuffers demo_world [(''b'', 7), (''a'', 8), (''c'', 9)] (ALContext_new None) = Some c3"
    unfolding c0_def [symmetric] by (simp add: g1 g2 g3)
  show ?thesis using r2 b2 r3 b3 by blast
qed

theorem registry_sorted_by_hash_witness:
  "sorted (map (\<lambda>b. hasher demo_world (mName b)) (mBuffers (ALContext_new None))) \<and>
   map_option (\<lambda>ctx. map mName (mBuffers ctx))
     (getBuffers demo_world [(''b'', 7), (''a'', 8)] (ALContext_new None)) = Some [''a'', ''b''] \<and>
   sorted (map (\<lambda>b. hasher demo_world (mName b))
     [ALBuffer_new 8 44100 2 2 True ''a'', ALBuffer_new 7 44100 2 2 True ''b''])"
  using getBuffers_demo_abc
proof (elim exE conjE)
  fix c2 c3
  let ?B = "ALBuffer_new 7 44100 2 2 True ''b''"
  let ?A = "ALBuffer_new 8 44100 2 2 True ''a''"
  assume run: "getBuffers demo_world [(''b'', 7), (''a'', 8)] (ALContext_new None) = Some c2"
    and b2: "mBuffers c2 = [?A, ?B]"
  have s0: "sorted (map (\<lambda>b. hasher demo_world (mName b)) (mBuffers (ALContext_new None)))"
    by (simp add: ALContext_new_def)
  have names: "map_option (\<lambda>ctx. map mName (mBuffers ctx))
     (getBuffers demo_world [(''b'', 7), (''a'', 8)] (ALContext_new None)) = Some [''a'', ''b'']"
    unfolding run by (simp add: b2 ALBuffer_new_def)
  note t = registry_sorted_by_hash [OF s0, where ns = "[(''b'', 7), (''a'', 8)]" and c = None
      and ctx' = c2 and name = "''x''" and r = "Inl not_current"]
  from t have "getBuffers demo_world [(''b'', 7), (''a'', 8)] (ALContext_new None) = Some c2 \<longrightarrow>
            sorted (map (\<lambda>b. hasher demo_world (mName b)) (mBuffers c2)) \<and>
            mName ` set (mBuffers c2) = fst ` set [(''b'', 7::nat), (''a'', 8)]"
    by (elim conjE)
  then have "sorted (map (\<lambda>b. hasher demo_world (mName b)) (mBuffers c2)) \<and>
            mName ` set (mBuffers c2) = fst ` set [(''b'', 7::nat), (''a'', 8)]" using run by (rule mp)
  then have "sorted (map (\<lambda>b. hasher demo_world (mName b)) (mBuffers c2))" by (rule conjunct1)
  then have s2: "sorted (map (\<lambda>b. hasher demo_world (mName b)) [?A, ?B])" unfolding b2 .
  from s0 names s2 show ?thesis by (intro conjI)
qed

text \<open>
  Claim C3 as stated fails: with the FNV-1a hash, fetching "b", "a" and "c" in this order
  leaves the registry enumerating "a", "c", "b", which is not the order of the names.
\<close>

theorem registry_name_order_counterexample:
  "map_option (\<lambda>ctx. map mName (mBuffers ctx))
     (getBuffers demo_world [(''b'', 7), (''a'', 8), (''c'', 9)] (ALContext_new None)) =
     Some [''a'', ''c'', ''b''] \<and>
   \<not> sorted [''a'', ''c'', ''b'']"
  using getBuffers_demo_abc
proof (elim exE conjE)
  fix c2 c3
  assume run: "getBuffers demo_world [(''b'', 7), (''a'', 8), (''c'', 9)] (ALContext_new None) = Some c3"
    and b3: "mBuffers c3 = [ALBuffer_new 8 44100 2 2 True ''a'', ALBuffer_new 9 44100 2 2 True ''c'',
                    ALBuffer_new 7 44100 2 2 True ''b'']"
  have names: "map_option (\<lambda>ctx. map mName (mBuffers ctx))
     (getBuffers demo_world [(''b'', 7), (''a'', 8), (''c'', 9)] (ALContext_new None)) =
     Some [''a'', ''c'', ''b'']"
    unfolding run by (simp add: b3 ALBuffer_new_def)
  have ns: "\<not> sorted [''a'', ''c'', ''b'']" by simp
  from names ns show ?thesis by (intro conjI)
qed

section \<open>Fetching a registered name\<close>





section \<open>Recycling sources\<close>

text \<open>
  createSource and freeSource in closed form, with the position that
  \<^verbatim>\<open>std::lower_bound\<close> finds in the sorted used-source index written as the length of
  the prefix of smaller sources.
\<close>


lemma createSource_eval:
  assumes "current w" and "sorted (mUsedSources ctx)"
  shows "createSource w ctx =
     (if mFreeSources ctx \<noteq> []
      then (Inr (last (mFreeSources ctx)),
            if last (mFreeSources ctx) \<in> set (mUsedSources ctx)
            then ctx\<lparr>mFreeSources := tl (mFreeSources ctx)\<rparr>
            else ctx\<lparr>mFreeSources := tl (mFreeSources ctx),
                     mUsedSources := insert_at
                       (length (takeWhile (\<lambda>p. p < last (mFreeSources ctx)) (mUsedSources ctx)))
                       (last (mFreeSources ctx)) (mUsedSources ctx)\<rparr>)
      else (Inr (length (mAllSources ctx)),
            if length (mAllSources ctx) \<in> set (mUsedSources ctx)
            then ctx\<lparr>mAllSources := mAllSources ctx @ [ALSource_new]\<rparr>
            else ctx\<lparr>mAllSources := mAllSources ctx @ [ALSource_new],
                     mUsedSources := insert_at
                       (length (takeWhile (\<lambda>p. p < length (mAllSources ctx)) (mUsedSources ctx)))
                       (length (mAllSources ctx)) (mUsedSources ctx)\<rparr>))"
proof -
  have lb: "lower_bound (mUsedSources ctx) (\<lambda>p. p < v) 0 (length (mUsedSources ctx)) =
            length (takeWhile (\<lambda>p. p < v) (mUsedSources ctx))" for v
    using assms(2) by (rule lower_bound_ptr)
  have found: "(length (takeWhile (\<lambda>p. p < v) (mUsedSources ctx)) = length (mUsedSources ctx) \<or>
          mUsedSources ctx ! length (takeWhile (\<lambda>p. p < v) (mUsedSources ctx)) \<noteq> v)
         \<longleftrightarrow> v \<notin> set (mUsedSources ctx)" for v
    using nth_takeWhile_found [OF assms(2), of v] by blast
  show ?thesis
  proof (cases "mFreeSources ctx = []")
    case True
    then show ?thesis using assms(1) found [of "length (mAllSources ctx)"]
      by (simp add: createSource_def Let_def lb)
  next
    case False
    then show ?thesis using assms(1) found [of "last (mFreeSources ctx)"]
      by (simp add: createSource_def Let_def lb)
  qed
qed

lemma freeSource_eval:
  assumes "sorted (mUsedSources ctx)"
  shows "freeSource p ctx =
     (if p \<in> set (mUsedSources ctx)
      then ctx\<lparr>mUsedSources := erase_at (length (takeWhile (\<lambda>q. q < p) (mUsedSources ctx)))
                                 (mUsedSources ctx),
               mFreeSources := mFreeSources ctx @ [p]\<rparr>
      else ctx\<lparr>mFreeSources := mFreeSources ctx @ [p]\<rparr>)"
proof -
  have lb: "lower_bound (mUsedSources ctx) (\<lambda>q. q < p) 0 (length (mUsedSources ctx)) =
            length (takeWhile (\<lambda>q. q < p) (mUsedSources ctx))"
    using assms by (rule lower_bound_ptr)
  have found: "(length (takeWhile (\<lambda>q. q < p) (mUsedSources ctx)) \<noteq> length (mUsedSources ctx) \<and>
          mUsedSources ctx ! length (takeWhile (\<lambda>q. q < p) (mUsedSources ctx)) = p)
         \<longleftrightarrow> p \<in> set (mUsedSources ctx)"
    using assms by (rule nth_takeWhile_found)
  show ?thesis
  proof (cases "p \<in> set (mUsedSources ctx)")
    case True
    then show ?thesis using found by (simp add: freeSource_def Let_def lb)
  next
    case False
    then show ?thesis using found by (auto simp: freeSource_def Let_def lb)
  qed
qed

text \<open>
  Claim C7.  The claim asks that a released source be the next one createSource returns
  before any new allocation, the free list holding the released sources.  The code
  reads the source to hand out with \<^verbatim>\<open>mFreeSources.back()\<close> and then calls
  \<^verbatim>\<open>mFreeSources.pop()\<close>, which on a queue removes the front: the newest released
  source is handed out and the oldest one is dropped.  Run on a fresh context:
  two sources 0 and 1 are created and released in this order, so the free queue is
  [0, 1].  The sequence is well formed.  The next createSource returns source 1 and
  drops source 0 from the queue, leaving [1]; the createSource after it returns source 1
  again, although source 1 is live and was not released in between; the third
  createSource finds the queue empty and allocates a third object, source 2, while the
  released source 0 has never been handed out again.  At the end the used-source index
  is [1, 2], the free queue is empty and three objects are allocated.
\<close>


theorem createSource_hands_out_live_source:
  "calls_wf demo_world
     [CreateSource, CreateSource, FreeSource 0, FreeSource (Suc 0),
      CreateSource, CreateSource, CreateSource] (ALContext_new None) \<and>
   mFreeSources (run_calls demo_world
     [CreateSource, CreateSource, FreeSource 0, FreeSource (Suc 0)] (ALContext_new None)) = [0, Suc 0] \<and>
   fst (createSource demo_world (run_calls demo_world
     [CreateSource, CreateSource, FreeSource 0, FreeSource (Suc 0)] (ALContext_new None))) = Inr (Suc 0) \<and>
   fst (createSource demo_world (run_calls demo_world
     [CreateSource, CreateSource, FreeSource 0, FreeSource (Suc 0), CreateSource]
     (ALContext_new None))) = Inr (Suc 0) \<and>
   fst (createSource demo_world (run_calls demo_world
     [CreateSource, CreateSource, FreeSource 0, FreeSource (Suc 0), CreateSource, CreateSource]
     (ALContext_new None))) = Inr 2 \<and>
   mUsedSources (run_calls demo_world
     [CreateSource, CreateSource, FreeSource 0, FreeSource (Suc 0),
      CreateSource, CreateSource, CreateSource] (ALContext_new None)) = [Suc 0, 2] \<and>
   mFreeSources (run_calls demo_world
     [CreateSource, CreateSource, FreeSource 0, FreeSource (Suc 0),
      CreateSource, CreateSource, CreateSource] (ALContext_new None)) = [] \<and>
   length (mAllSources (run_calls demo_world
     [CreateSource, CreateSource, FreeSource 0, FreeSource (Suc 0),
      CreateSource, CreateSource, CreateSource] (ALContext_new None))) = 3"
proof -
  define c0 where "c0 = ALContext_new None"
  define S where "S = ALSource_new"
  define c1 where "c1 = c0\<lparr>mAllSources := [S], mUsedSources := [0]\<rparr>"
  define c2 where "c2 = c0\<lparr>mAllSources := [S, S], mUsedSources := [0, Suc 0]\<rparr>"
  define c3 where "c3 = c0\<lparr>mAllSources := [S, S], mUsedSources := [Suc 0], mFreeSources := [0]\<rparr>"
  define c4 where "c4 = c0\<lparr>mAllSources := [S, S], mUsedSources := [], mFreeSources := [0, Suc 0]\<rparr>"
  define c5 where "c5 = c0\<lparr>mAllSources := [S, S], mUsedSources := [Suc 0], mFreeSources := [Suc 0]\<rparr>"
  define c6 where "c6 = c0\<lparr>mAllSources := [S, S], mUsedSources := [Suc 0], mFreeSources := []\<rparr>"
  define c7 where "c7 = c0\<lparr>mAllSources := [S, S, S], mUsedSources := [Suc 0, 2], mFreeSources := []\<rparr>"
  have cur: "current demo_world" by (simp add: demo_world_def)
  have z: "mAllSources c0 = []" "mUsedSources c0 = []" "mFreeSources c0 = []"
    by (simp_all add: c0_def ALContext_new_def)
  have s1: "createSource demo_world c0 = (Inr 0, c1)"
    by (subst createSource_eval [OF cur]) (simp_all add: z c1_def S_def insert_at_def)
  have s2: "createSource demo_world c1 = (Inr (Suc 0), c2)"
    by (subst createSource_eval [OF cur]) (simp_all add: z c1_def c2_def S_def insert_at_def)
  have s3: "freeSource 0 c2 = c3"
    by (subst freeSource_eval) (simp_all add: z c2_def c3_def erase_at_def)
  have s4: "freeSource (Suc 0) c3 = c4"
    by (subst freeSource_eval) (simp_all add: z c3_def c4_def erase_at_def)
  have s5: "createSource demo_world c4 = (Inr (Suc 0), c5)"
    by (subst createSource_eval [OF cur]) (simp_all add: z c4_def c5_def insert_at_def)
  have s6: "createSource demo_world c5 = (Inr (Suc 0), c6)"
    by (subst createSource_eval [OF cur]) (simp_all add: z c5_def c6_def)
  have s7: "createSource demo_world c6 = (Inr 2, c7)"
    by (subst createSource_eval [OF cur]) (simp_all add: z c6_def c7_def S_def insert_at_def)
  have l2: "length (mAllSources c2) = 2" "length (mAllSources c3) = 2"
    by (simp_all add: c2_def c3_def)
  have r4: "run_calls demo_world [CreateSource, CreateSource, FreeSource 0, FreeSource (Suc 0)] c0 = c4"
    by (simp add: s1 s2 s3 s4)
  have r5: "run_calls demo_world
      [CreateSource, CreateSource, FreeSource 0, FreeSource (Suc 0), CreateSource] c0 = c5"
    by (simp add: s1 s2 s3 s4 s5)
  have r6: "run_calls demo_world
      [CreateSource, CreateSource, FreeSource 0, FreeSource (Suc 0), CreateSource, CreateSource] c0 = c6"
    by (simp add: s1 s2 s3 s4 s5 s6)
  have r7: "run_calls demo_world
      [CreateSource, CreateSource, FreeSource 0, FreeSource (Suc 0),
       CreateSource, CreateSource, CreateSource] c0 = c7"
    by (simp add: s1 s2 s3 s4 s5 s6 s7)
  have wf: "calls_wf demo_world
      [CreateSource, CreateSource, FreeSource 0, FreeSource (Suc 0),
       CreateSource, CreateSource, CreateSource] c0"
    by (simp add: s1 s2 s3 s4 s5 s6 s7 l2)
  have e: "mFreeSources c4 = [0, Suc 0]" "mUsedSources c7 = [Suc 0, 2]" "mFreeSources c7 = []"
    "length (mAllSources c7) = 3"
    by (simp_all add: c4_def c7_def)
  show ?thesis
    unfolding c0_def [symmetric] r4 r5 r6 r7 s5 s6 s7 using wf e by simp
qed

theorem createSource_hands_out_live_source_witness:
  "fst (createSource demo_world (run_calls demo_world
     [CreateSource, CreateSource, FreeSource 0, FreeSource (Suc 0), CreateSource]
     (ALContext_new None))) =
   fst (createSource demo_world (run_calls demo_world
     [CreateSource, CreateSource, FreeSource 0, FreeSource (Suc 0)] (ALContext_new None)))"
  using createSource_hands_out_live_source by (elim conjE) (erule ssubst, erule ssubst, rule refl)

section \<open>Failing fetches\<close>

















lemma getBuffer_absent_success:
  assumes "current w"
    and "\<not> (find_buffer (hasher w) (mBuffers ctx) name \<noteq> length (mBuffers ctx) \<and>
            mName (mBuffers ctx ! find_buffer (hasher w) (mBuffers ctx) name) = name)"
    and "createDecoder w ctx name = Some (Inr decoder)"
    and "read decoder (getLength decoder) \<noteq> 0"
    and "GetFormat w (getChannelConfig decoder) (getSampleType decoder) \<noteq> AL_NONE"
    and "alGenBuffers w = Some bid" and "alBufferData w"
    and "mHasExt ctx SOFT_loop_points \<longrightarrow> alBufferiv w"
  shows "\<exists>t. getBuffer w name ctx =
           Some (Inr (ALBuffer_new bid (getFrequency decoder) (getChannelConfig decoder)
                        (getSampleType decoder) True name),
                 ctx\<lparr>trace := trace ctx @ t,
                     mBuffers := insert_at (find_buffer (hasher w) (mBuffers ctx) name)
                       (ALBuffer_new bid (getFrequency decoder) (getChannelConfig decoder)
                          (getSampleType decoder) True name) (mBuffers ctx)\<rparr>) \<and>
           AlGenBuffers (Some bid) \<in> set t \<and>
           AlBufferData bid (GetFormat w (getChannelConfig decoder) (getSampleType decoder))
             (getFrequency decoder) \<in> set t \<and>
           (\<forall>i. AlDeleteBuffers i \<notin> set t)"
proof -
  let ?calls = "[AlGenBuffers (Some bid),
                 AlBufferData bid (GetFormat w (getChannelConfig decoder) (getSampleType decoder))
                   (getFrequency decoder)]
                @ (if mHasExt ctx SOFT_loop_points
                   then [AlBufferiv bid
                          (ucast (fst (normalize_loop_points (getLoopPoints decoder)
                                         (read decoder (getLength decoder)))))
                          (ucast (snd (normalize_loop_points (getLoopPoints decoder)
                                         (read decoder (getLength decoder)))))]
                   else [])"
  let ?t = "(if mMessage ctx \<noteq> None
             then [BufferLoading name (getChannelConfig decoder) (getSampleType decoder)
                     (getFrequency decoder)]
             else []) @ ?calls"
  have "getBuffer w name ctx =
           Some (Inr (ALBuffer_new bid (getFrequency decoder) (getChannelConfig decoder)
                        (getSampleType decoder) True name),
                 ctx\<lparr>trace := trace ctx @ ?t,
                     mBuffers := insert_at (find_buffer (hasher w) (mBuffers ctx) name)
                       (ALBuffer_new bid (getFrequency decoder) (getChannelConfig decoder)
                          (getSampleType decoder) True name) (mBuffers ctx)\<rparr>)"
    using assms by (auto simp: getBuffer_def Let_def)
  moreover have "AlGenBuffers (Some bid) \<in> set ?t" by simp
  moreover have "AlBufferData bid (GetFormat w (getChannelConfig decoder) (getSampleType decoder))
             (getFrequency decoder) \<in> set ?t" by simp
  moreover have "\<forall>i. AlDeleteBuffers i \<notin> set ?t" by simp
  ultimately show ?thesis by blast
qed



lemma createDecoder_accepting:
  assumes "filesystem w name" and "sFileFactory w = None" and "sDecoders w = []"
    and "sDefaults w = sDefaultDecoders (accepting d) avail"
  shows "createDecoder w ctx name = Some (Inr d)"
  using assms
  by (simp add: createDecoder_def FileIOFactory_get_def GetDecoder_def
      sDefaultDecoders_def accepting_def Let_def)



section \<open>Names with the same hash\<close>

text \<open>
  The lookup compares hashes and then looks at one entry only, the first whose hash is
  not below the hash of the name.  Of two registered names with the same hash it can
  therefore see only the one that stands first: the other is registered and is not
  found, whatever the hash function.
\<close>

lemma wait_write_space_now: "ws 0 \<noteq> 0 \<Longrightarrow> wait_write_space ws 0 = Some 0"
  by (subst wait_write_space.simps) simp

lemma getBufferAsync_absent_success:
  assumes "current w"
    and "\<not> (find_buffer (hasher w) (mBuffers ctx) name \<noteq> length (mBuffers ctx) \<and>
            mName (mBuffers ctx ! find_buffer (hasher w) (mBuffers ctx) name) = name)"
    and "createDecoder w ctx name = Some (Inr decoder)"
    and "getLength decoder \<noteq> 0"
    and "GetFormat w (getChannelConfig decoder) (getSampleType decoder) \<noteq> AL_NONE"
    and "alGenBuffers w = Some bid" and "write_space w 0 \<noteq> 0"
  shows "getBufferAsync w name ctx =
           Some (Inr (ALBuffer_new bid (getFrequency decoder) (getChannelConfig decoder)
                        (getSampleType decoder) False name),
                 ctx\<lparr>mThread := True,
                     mPendingBuffers := mPendingBuffers ctx @
                       [\<lparr>pbName = name, pbBuffer = name, pbDecoder = decoder,
                         pbFormat = GetFormat w (getChannelConfig decoder) (getSampleType decoder),
                         pbFrames = getLength decoder\<rparr>],
                     trace := trace ctx @ [AlGenBuffers (Some bid)]
                                @ (if mThread ctx then [] else [ThreadStart]) @ [NotifyAll],
                     mBuffers := insert_at (find_buffer (hasher w) (mBuffers ctx) name)
                       (ALBuffer_new bid (getFrequency decoder) (getChannelConfig decoder)
                          (getSampleType decoder) False name) (mBuffers ctx)\<rparr>)"
  using assms wait_write_space_now [of "write_space w"]
  by (auto simp: getBufferAsync_def Let_def)

lemma lookup_misses_colliding_name:
  assumes "h other = h name" and "other \<noteq> name" and "mName x = other" and "mName y = name"
  shows "find_buffer h [x, y] name = 0 \<and> mName ([x, y] ! find_buffer h [x, y] name) \<noteq> name"
proof -
  have "sorted (map (\<lambda>b. h (mName b)) [x, y])" using assms by simp
  then have "find_buffer h [x, y] name = length (takeWhile (\<lambda>b. h (mName b) < h name) [x, y])"
    by (rule find_buffer_sorted)
  then have "find_buffer h [x, y] name = 0" using assms by simp
  then show ?thesis using assms by simp
qed

lemma fnv1a32_collision:
  "fnv1a32 ''liquid'' = 1582148253" "fnv1a32 ''costarring'' = 1582148253"
  by (simp_all add: fnv1a32_def)

lemma collision_world_fields:
  "current (collision_world i)" "hasher (collision_world i) = fnv1a32"
  "alGenBuffers (collision_world i) = Some i" "alBufferData (collision_world i)"
  "write_space (collision_world i) 0 \<noteq> 0" "worker_done (collision_world i) = (\<lambda>k. False)"
  "GetFormat (collision_world i) c t = 4353"
  by (simp_all add: collision_world_def demo_world_def)

lemma createDecoder_collision_world:
  "createDecoder (collision_world i) ctx name = Some (Inr demo_decoder)"
  by (rule createDecoder_accepting) (simp_all add: collision_world_def demo_world_def)

text \<open>
  Claim C1.  The claim asks that \<^verbatim>\<open>getBuffer\<close> on a name that is already registered
  wait until that buffer is Ready and return it.  The code does so only when the lookup
  finds the name, and it misses a registered name that stands behind another name of
  the same hash.  Run with the 32-bit FNV-1a hash on a fresh context:
  \<^verbatim>\<open>getBufferAsync("liquid")\<close> registers "liquid" as a Pending buffer with id 7;
  \<^verbatim>\<open>getBufferAsync("costarring")\<close>, whose hash is the same, registers a Pending buffer
  with id 8 in front of it.  Then \<^verbatim>\<open>getBuffer("liquid")\<close> looks at the first entry,
  "costarring", takes "liquid" for absent, decodes and uploads it a second time and
  returns a new Ready buffer with id 9, inserted in front: the registry now holds
  "liquid" twice, and the buffer registered under that name is still Pending.  The
  worker never finishes a load in this run, so a call that waited for the registered
  buffer would not have returned.
\<close>

theorem getBuffer_misses_colliding_name:
  "fnv1a32 ''liquid'' = fnv1a32 ''costarring'' \<and>
   (\<exists>c1 c2 c3.
      getBufferAsync (collision_world 7) ''liquid'' (ALContext_new None) =
        Some (Inr (ALBuffer_new 7 44100 2 2 False ''liquid''), c1) \<and>
      getBufferAsync (collision_world 8) ''costarring'' c1 =
        Some (Inr (ALBuffer_new 8 44100 2 2 False ''costarring''), c2) \<and>
      mBuffers c2 = [ALBuffer_new 8 44100 2 2 False ''costarring'',
                     ALBuffer_new 7 44100 2 2 False ''liquid''] \<and>
      getBuffer (collision_world 9) ''liquid'' c2 =
        Some (Inr (ALBuffer_new 9 44100 2 2 True ''liquid''), c3) \<and>
      mBuffers c3 = [ALBuffer_new 9 44100 2 2 True ''liquid'',
                     ALBuffer_new 8 44100 2 2 False ''costarring'',
                     ALBuffer_new 7 44100 2 2 False ''liquid'']) \<and>
   mLoadStatus (ALBuffer_new 7 44100 2 2 False ''liquid'') = Pending \<and>
   wait_loaded (worker_done (collision_world 9)) 0 (ALBuffer_new 7 44100 2 2 False ''liquid'') = None"
proof -
  let ?L7 = "ALBuffer_new 7 44100 2 2 False ''liquid''"
  let ?C8 = "ALBuffer_new 8 44100 2 2 False ''costarring''"
  let ?L9 = "ALBuffer_new 9 44100 2 2 True ''liquid''"
  define c0 where "c0 = ALContext_new None"
  have dd: "getFrequency demo_decoder = 44100" "getChannelConfig demo_decoder = 2"
    "getSampleType demo_decoder = 2" "getLength demo_decoder \<noteq> 0"
    "read demo_decoder (getLength demo_decoder) \<noteq> 0"
    by (simp_all add: demo_decoder_def)
  have fmt: "GetFormat (collision_world i) (getChannelConfig demo_decoder)
               (getSampleType demo_decoder) \<noteq> AL_NONE" for i
    by (simp add: collision_world_fields AL_NONE_def)
  have nm: "mName ?L7 = ''liquid''" "mName ?C8 = ''costarring''"
    by (simp_all add: ALBuffer_new_def)
  have b0: "mBuffers c0 = []" and x0: "\<not> mHasExt c0 SOFT_loop_points"
    by (simp_all add: c0_def ALContext_new_def)
  have eq: "fnv1a32 ''liquid'' = fnv1a32 ''costarring''" by (simp add: fnv1a32_collision)

  have nf0: "\<not> (find_buffer (hasher (collision_world 7)) (mBuffers c0) ''liquid''
                 \<noteq> length (mBuffers c0) \<and>
               mName (mBuffers c0 ! find_buffer (hasher (collision_world 7)) (mBuffers c0) ''liquid'')
                 = ''liquid'')"
    by (simp add: b0 find_buffer_empty)
  note s1 = getBufferAsync_absent_success [OF collision_world_fields(1) nf0
      createDecoder_collision_world dd(4) fmt collision_world_fields(3) collision_world_fields(5)]
  obtain c1 where g1: "getBufferAsync (collision_world 7) ''liquid'' c0 = Some (Inr ?L7, c1)"
    and b1: "mBuffers c1 = [?L7]" and x1: "\<not> mHasExt c1 SOFT_loop_points"
    using s1 by (simp add: dd b0 x0 find_buffer_empty insert_at_def collision_world_fields)

  have f1: "find_buffer (hasher (collision_world 8)) (mBuffers c1) ''costarring'' = 0"
    unfolding b1 collision_world_fields
    by (subst find_buffer_sorted) (simp_all add: nm fnv1a32_collision)
  have nf1: "\<not> (find_buffer (hasher (collision_world 8)) (mBuffers c1) ''costarring''
                 \<noteq> length (mBuffers c1) \<and>
               mName (mBuffers c1 ! find_buffer (hasher (collision_world 8)) (mBuffers c1) ''costarring'')
                 = ''costarring'')"
    unfolding f1 by (simp add: b1 nm)
  note s2 = getBufferAsync_absent_success [OF collision_world_fields(1) nf1
      createDecoder_collision_world dd(4) fmt collision_world_fields(3) collision_world_fields(5)]
  obtain c2 where g2: "getBufferAsync (collision_world 8) ''costarring'' c1 = Some (Inr ?C8, c2)"
    and b2: "mBuffers c2 = [?C8, ?L7]" and x2: "\<not> mHasExt c2 SOFT_loop_points"
    using s2 unfolding f1 by (simp add: dd b1 x1 insert_at_def)

  have f2: "find_buffer (hasher (collision_world 9)) (mBuffers c2) ''liquid'' = 0"
    unfolding b2 collision_world_fields
    by (subst find_buffer_sorted) (simp_all add: nm fnv1a32_collision)
  have nf2: "\<not> (find_buffer (hasher (collision_world 9)) (mBuffers c2) ''liquid''
                 \<noteq> length (mBuffers c2) \<and>
               mName (mBuffers c2 ! find_buffer (hasher (collision_world 9)) (mBuffers c2) ''liquid'')
                 = ''liquid'')"
    unfolding f2 by (simp add: b2 nm)
  have x2': "mHasExt c2 SOFT_loop_points \<longrightarrow> alBufferiv (collision_world 9)" using x2 by simp
  note s3 = getBuffer_absent_success [OF collision_world_fields(1) nf2
      createDecoder_collision_world dd(5) fmt collision_world_fields(3) collision_world_fields(4) x2']
  obtain c3 where g3: "getBuffer (collision_world 9) ''liquid'' c2 = Some (Inr ?L9, c3)"
    and b3: "mBuffers c3 = [?L9, ?C8, ?L7]"
    using s3 unfolding f2 by (auto simp: dd b2 insert_at_def)

  have p: "mLoadStatus ?L7 = Pending" and nl: "\<not> mIsLoaded ?L7"
    by (simp_all add: ALBuffer_new_def)
  have wl: "wait_loaded (worker_done (collision_world 9)) 0 ?L7 = None"
    unfolding wait_loaded_None using p nl by (simp add: collision_world_fields)
  have ex: "\<exists>c1 c2 c3.
      getBufferAsync (collision_world 7) ''liquid'' (ALContext_new None) = Some (Inr ?L7, c1) \<and>
      getBufferAsync (collision_world 8) ''costarring'' c1 = Some (Inr ?C8, c2) \<and>
      mBuffers c2 = [?C8, ?L7] \<and>
      getBuffer (collision_world 9) ''liquid'' c2 = Some (Inr ?L9, c3) \<and>
      mBuffers c3 = [?L9, ?C8, ?L7]"
    using g1 g2 b2 g3 b3 unfolding c0_def by (intro exI conjI)
  from eq ex p wl show ?thesis by (intro conjI)
qed

theorem getBuffer_misses_colliding_name_witness:
  "fnv1a32 ''liquid'' = fnv1a32 ''costarring'' \<and>
   wait_loaded (worker_done (collision_world 9)) 0 (ALBuffer_new 7 44100 2 2 False ''liquid'') = None"
  using getBuffer_misses_colliding_name by (elim conjE) (rule conjI)

end
